theory Spec2Isabelle
  imports Main "HOL-Library.Word" "HOL-Library.Char_ord" "HOL-Library.List_Lexorder"
    "HOL-Library.Multiset"
begin

section \<open>md5hash: data model\<close>

text \<open>
  The development embeds \<^verbatim>\<open>src/md5hash.cpp\<close>.  A path is the string the program holds
  for it (\<^verbatim>\<open>fs::path::string()\<close>), a byte is an \<^verbatim>\<open>unsigned char\<close>, and \<^verbatim>\<open>std::size_t\<close>
  is the 64-bit unsigned type of an LP64 platform.
\<close>

type_synonym path = string
type_synonym byte = "8 word"
type_synonym size_t = "64 word"

text \<open>\<^verbatim>\<open>struct Task { std::size_t index; fs::path path; }\<close>\<close>

record Task =
  index :: nat
  path :: path

text \<open>\<^verbatim>\<open>struct Result { bool ok; std::string md5hex; std::string err; }\<close>\<close>

record Result =
  ok :: bool
  md5hex :: string
  err :: string

section \<open>Rendering the digest (md5-file-hex, lines 45--53)\<close>

text \<open>
  Modelled from the spec: \<^verbatim>\<open>MD5_DIGEST_LENGTH\<close> comes from \<^verbatim>\<open><openssl/md5.h>\<close>, which is
  not part of the repository; the spec fixes a 128-bit digest, that is 16 bytes.
\<close>

definition MD5_DIGEST_LENGTH :: nat where
  "MD5_DIGEST_LENGTH = 16"

text \<open>
  The array \<^verbatim>\<open>unsigned char digest[MD5_DIGEST_LENGTH]\<close> is read at the indices
  \<open>0 .. MD5_DIGEST_LENGTH - 1\<close> only, so it is modelled as a function from index to byte.
  The digest function itself (\<^verbatim>\<open>MD5_Init\<close>, \<^verbatim>\<open>MD5_Update\<close>, \<^verbatim>\<open>MD5_Final\<close> of OpenSSL) is
  a parameter: it maps the bytes fed to the context, in order, to the digest array.
\<close>

type_synonym digest = "nat \<Rightarrow> byte"
type_synonym md5_fun = "byte list \<Rightarrow> digest"

text \<open>The digits \<^verbatim>\<open>std::hex\<close> writes under \<^verbatim>\<open>std::uppercase\<close>.\<close>

definition uppercase_hex :: string where
  "uppercase_hex = ''0123456789ABCDEF''"

definition hex_digit :: "nat \<Rightarrow> char" where
  "hex_digit d = uppercase_hex ! d"

text \<open>\<^verbatim>\<open>oss << std::uppercase << std::hex << v\<close> for a non-negative \<open>v\<close>: the digits of
  \<open>v\<close> in base 16, most significant first, no leading zero.\<close>

fun hex_digits :: "nat \<Rightarrow> string" where
  "hex_digits n =
     (if n < 16 then [hex_digit n] else hex_digits (n div 16) @ [hex_digit (n mod 16)])"

declare hex_digits.simps [simp del]

text \<open>\<^verbatim>\<open>std::setw(w)\<close> with \<^verbatim>\<open>std::setfill(c)\<close> and the default right adjustment.\<close>

definition setw_fill :: "nat \<Rightarrow> char \<Rightarrow> string \<Rightarrow> string" where
  "setw_fill w c s = replicate (w - length s) c @ s"

text \<open>One iteration of the loop at line 50:
  \<^verbatim>\<open>oss << std::setw(2) << static_cast<int>(digest[i])\<close>.\<close>

definition put_byte :: "byte \<Rightarrow> string" where
  "put_byte b = setw_fill 2 (CHR ''0'') (hex_digits (unat b))"

definition digest_hex :: "digest \<Rightarrow> string" where
  "digest_hex d = concat (map (\<lambda>i. put_byte (d i)) [0..<MD5_DIGEST_LENGTH])"

section \<open>Reading a file (md5-file-hex, lines 29--46)\<close>

text \<open>
  The state of the \<^verbatim>\<open>std::ifstream\<close> after a call of \<^verbatim>\<open>read\<close>: still good, at the end of
  the file (\<^verbatim>\<open>eofbit | failbit\<close>), or failed on a read error (\<^verbatim>\<open>badbit\<close>).  The loop
  condition \<^verbatim>\<open>while (in)\<close> is \<^verbatim>\<open>!in.fail()\<close>, true in the first case only.
\<close>

datatype iostate = Good | Eof | Bad

text \<open>
  A file as the program meets it: the open fails, or each successive call of
  \<^verbatim>\<open>in.read(buf, BUF_SZ)\<close> stores some bytes (\<^verbatim>\<open>in.gcount()\<close> of them) and leaves the stream
  in some state.  Once the listed calls are used up, a further call stores nothing and
  reports the end of the file.
\<close>

datatype infile = Cannot_open | Opened "(byte list \<times> iostate) list"

datatype exn = Runtime_error string

text \<open>The loop of lines 39--43; \<open>ctx\<close> is the sequence of bytes given to \<^verbatim>\<open>MD5_Update\<close>
  so far.\<close>

fun read_loop :: "(byte list \<times> iostate) list \<Rightarrow> byte list \<Rightarrow> byte list" where
  "read_loop [] ctx = ctx"
| "read_loop ((got, st) # rest) ctx =
     (let ctx' = (if 0 < length got then ctx @ got else ctx)
      in if st = Good then read_loop rest ctx' else ctx')"

definition md5_file_hex :: "md5_fun \<Rightarrow> infile \<Rightarrow> exn + string" where
  "md5_file_hex md5 f =
     (case f of
        Cannot_open \<Rightarrow> Inl (Runtime_error ''cannot open file'')
      | Opened reads \<Rightarrow> Inr (digest_hex (md5 (read_loop reads []))))"

text \<open>The body of the worker between the two critical sections (lines 156--163):
  the \<^verbatim>\<open>try\<close> block and its handler.\<close>

definition hash_task :: "md5_fun \<Rightarrow> infile \<Rightarrow> Result" where
  "hash_task md5 f =
     (case md5_file_hex md5 f of
        Inr h \<Rightarrow> \<lparr>ok = True, md5hex = h, err = []\<rparr>
      | Inl (Runtime_error what) \<Rightarrow> \<lparr>ok = False, md5hex = [], err = what\<rparr>)"

section \<open>File discovery (collect-files-from-arg, lines 56--82)\<close>

definition nl :: char where
  "nl = CHR 0x0A"

definition tab :: char where
  "tab = CHR 0x09"

text \<open>
  The file system is a parameter, given by what the calls of \<^verbatim>\<open>std::filesystem\<close> return.
  The functions with an \<^verbatim>\<open>error_code\<close> argument return \<open>False\<close> on an error.
  \<open>fs_walk p\<close> lists the executions of the loop body at lines 72--76 for the directory
  \<open>p\<close>: each one either finds \<^verbatim>\<open>ec\<close> set (\<open>Walk_error\<close>), or looks at the entry
  \<^verbatim>\<open>it->path()\<close>, for which \<^verbatim>\<open>fs::is_regular_file\<close> gives the recorded answer.
  \<open>fs_open p\<close> is what \<^verbatim>\<open>md5_file_hex\<close> meets when it opens \<open>p\<close>.
\<close>

datatype walk_item = Walk_error | Walk_entry path bool

record filesystem =
  fs_exists :: "path \<Rightarrow> bool"
  fs_is_regular_file :: "path \<Rightarrow> bool"
  fs_is_directory :: "path \<Rightarrow> bool"
  fs_walk :: "path \<Rightarrow> walk_item list"
  fs_open :: "path \<Rightarrow> infile"

fun walk_loop :: "walk_item list \<Rightarrow> path list \<Rightarrow> path list" where
  "walk_loop [] out = out"
| "walk_loop (Walk_error # rest) out = walk_loop rest out"
| "walk_loop (Walk_entry p reg # rest) out = walk_loop rest (if reg then out @ [p] else out)"

text \<open>The state passed through is the vector \<^verbatim>\<open>out\<close> and the text written to
  \<^verbatim>\<open>std::cerr\<close>.\<close>

definition collect_files_from_arg ::
  "filesystem \<Rightarrow> path \<Rightarrow> path list \<times> string \<Rightarrow> path list \<times> string" where
  "collect_files_from_arg fs arg st =
     (case st of (out, cerr) \<Rightarrow>
        if \<not> fs_exists fs arg then
          (out, cerr @ ''Warning: path not found: '' @ arg @ [nl])
        else if fs_is_regular_file fs arg then (out @ [arg], cerr)
        else if fs_is_directory fs arg then (walk_loop (fs_walk fs arg) out, cerr)
        else (out, cerr @ ''Warning: skipping non-regular path: '' @ arg @ [nl]))"

section \<open>Command line (main, lines 84--133)\<close>

text \<open>
  \<^verbatim>\<open>std::stoul(str)\<close> with its default base 10 is \<^verbatim>\<open>strtoul\<close> on the string: leading
  white space is skipped, one sign is accepted, then the longest run of decimal digits
  is converted and whatever follows is ignored.  No digit: \<^verbatim>\<open>std::invalid_argument\<close>.
  A magnitude above \<^verbatim>\<open>ULONG_MAX\<close>: \<^verbatim>\<open>std::out_of_range\<close>.  A minus sign negates the
  result in the unsigned type.
\<close>

datatype conv_error = Invalid_argument | Out_of_range

definition isspace :: "char \<Rightarrow> bool" where
  "isspace c = (c = CHR '' '' \<or> (9 \<le> (of_char c :: nat) \<and> (of_char c :: nat) \<le> 13))"

definition isdigit :: "char \<Rightarrow> bool" where
  "isdigit c = (48 \<le> (of_char c :: nat) \<and> (of_char c :: nat) \<le> 57)"

fun digits_value :: "string \<Rightarrow> nat \<Rightarrow> nat" where
  "digits_value [] acc = acc"
| "digits_value (c # cs) acc = digits_value cs (10 * acc + (of_char c - 48))"

definition strip_sign :: "string \<Rightarrow> bool \<times> string" where
  "strip_sign t =
     (case t of
        [] \<Rightarrow> (False, [])
      | c # r \<Rightarrow>
          if c = CHR ''-'' then (True, r)
          else if c = CHR ''+'' then (False, r)
          else (False, t))"

definition stoul :: "string \<Rightarrow> conv_error + size_t" where
  "stoul str =
     (case strip_sign (dropWhile isspace str) of (neg, u) \<Rightarrow>
        let ds = takeWhile isdigit u; m = digits_value ds 0
        in if ds = [] then Inl Invalid_argument
           else if 2 ^ 64 \<le> m then Inl Out_of_range
           else Inr (if neg then - word_of_nat m else word_of_nat m))"

datatype fatal =
  Usage | Threads_requires_number | Invalid_threads_value | No_input_paths | No_files_found

text \<open>The loop of lines 98--115 over \<^verbatim>\<open>rawArgs\<close>; \<^verbatim>\<open>catch (...)\<close> takes both exceptions
  of \<^verbatim>\<open>std::stoul\<close>.\<close>

fun parse_args :: "string list \<Rightarrow> size_t \<Rightarrow> path list \<Rightarrow> fatal + size_t \<times> path list" where
  "parse_args [] threads inputs = Inr (threads, inputs)"
| "parse_args (a # rest) threads inputs =
     (if a = ''--threads'' then
        (case rest of
           [] \<Rightarrow> Inl Threads_requires_number
         | v # rest' \<Rightarrow>
             (case stoul v of
                Inl e \<Rightarrow> Inl Invalid_threads_value
              | Inr n \<Rightarrow> parse_args rest' (max 8 n) inputs))
      else parse_args rest threads (inputs @ [a]))"

definition message :: "fatal \<Rightarrow> string" where
  "message e =
     (case e of
        Usage \<Rightarrow>
          ''USAGE: md5hash <directory/file> [more directories/files] [--threads N]'' @ [nl]
      | Threads_requires_number \<Rightarrow> ''Error: --threads requires a number'' @ [nl]
      | Invalid_threads_value \<Rightarrow> ''Error: invalid --threads value'' @ [nl]
      | No_input_paths \<Rightarrow> ''Error: no input paths provided'' @ [nl]
      | No_files_found \<Rightarrow> ''No files found.'' @ [nl])"

text \<open>Line 124: \<^verbatim>\<open>for (const auto& p : inputs) collect_files_from_arg(p, files)\<close>.\<close>

definition collect_all :: "filesystem \<Rightarrow> path list \<Rightarrow> path list \<times> string" where
  "collect_all fs inputs = foldl (\<lambda>st p. collect_files_from_arg fs p st) ([], []) inputs"

text \<open>
  What \<^verbatim>\<open>main\<close> does before it starts the pool: an early \<^verbatim>\<open>return\<close> with its code, or the
  worker count and the sorted file list it proceeds with.  \<^verbatim>\<open>std::sort\<close> with the
  comparison of the path strings is \<open>sort\<close> on strings, ordered as \<^verbatim>\<open>std::string\<close>
  orders them (lexicographically by unsigned character code).  The first two components
  of the result are the text written to \<^verbatim>\<open>std::cout\<close> and to \<^verbatim>\<open>std::cerr\<close>; \<open>args\<close> is
  \<^verbatim>\<open>argv[1 .. argc - 1]\<close>.
\<close>

datatype setup_result = Exit int | Proceed size_t "path list"

definition main_setup :: "filesystem \<Rightarrow> string list \<Rightarrow> string \<times> string \<times> setup_result" where
  "main_setup fs args =
     (if args = [] then (message Usage, [], Exit 1)
      else
        (case parse_args args 8 [] of
           Inl e \<Rightarrow> ([], message e, Exit 1)
         | Inr (threads, inputs) \<Rightarrow>
             if inputs = [] then ([], message No_input_paths, Exit 1)
             else
               (case collect_all fs inputs of (files, warnings) \<Rightarrow>
                  if files = [] then ([], warnings @ message No_files_found, Exit 1)
                  else ([], warnings, Proceed threads (sort files)))))"

section \<open>Queue, pool and collector (main, lines 135--207)\<close>

text \<open>
  The threads interleave.  Everything a thread does while it holds \<^verbatim>\<open>mtx\<close> is one atomic
  step, and \<^verbatim>\<open>cv.wait(lock, pred)\<close> is the guard \<open>pred\<close> of the step that follows it:
  every change that can make a predicate true is made under the lock and followed by
  \<^verbatim>\<open>cv.notify_all()\<close>, and \<^verbatim>\<open>wait\<close> tests its predicate before it blocks.  A schedule is
  the list of the steps taken, each naming the thread that moves.  The files do not
  change while the program runs: hashing a path gives the outcome \<open>hashf c p\<close> whenever
  it happens.

  Starting the pool can fail.  \<^verbatim>\<open>pool.reserve(threads)\<close> at line 175 throws
  \<^verbatim>\<open>std::length_error\<close> when \<^verbatim>\<open>threads\<close> is above the vector's \<^verbatim>\<open>max_size()\<close>, and
  \<^verbatim>\<open>std::bad_alloc\<close> when the memory cannot be had; the constructor of \<^verbatim>\<open>std::thread\<close> at
  line 176 throws \<^verbatim>\<open>std::system_error\<close> when the thread cannot be created.  Nothing in
  \<^verbatim>\<open>main\<close> catches these, so \<^verbatim>\<open>std::terminate\<close> ends the process: the field \<open>aborted\<close>
  of the state is set and no thread takes a step any more.  Whether memory and threads
  can be had is the environment's choice, so this is a step of its own, \<open>Abort\<close>.
\<close>

text \<open>\<^verbatim>\<open>std::vector<std::thread>::max_size()\<close> on an LP64 platform, where a
  \<^verbatim>\<open>std::thread\<close> is 8 bytes: \<^verbatim>\<open>PTRDIFF_MAX / 8\<close>.\<close>

definition vector_max_size :: nat where
  "vector_max_size = 2 ^ 60 - 1"

text \<open>Where a worker stands in the lambda of lines 145--171: waiting at line 150,
  between the critical sections with its task, about to publish the result at line
  166, or returned.\<close>

datatype worker = Waiting | Hashing Task | Publishing Task Result | Returned

text \<open>Where the main thread stands: in lines 174--176, in the loop of lines
  183--196, in the loop of line 205, or returned with its exit code.\<close>

datatype main_pc = Starting | Collecting | Joining | Exited int

datatype action =
  Spawn | Abort | Begin | Take nat | Hash nat | Publish nat | Leave nat | Emit | Shutdown |
  Join | Return

record config =
  threads :: nat
  files :: "path list"
  hashf :: "path \<Rightarrow> Result"

record state =
  q :: "Task list"
  results :: "Result option list"
  done_flag :: bool
  pool :: "worker list"
  next_idx :: nat
  joined :: nat
  pc :: main_pc
  cout :: string
  aborted :: bool

text \<open>\<^verbatim>\<open>path.filename().string()\<close> in the generic (POSIX) path format: what follows the
  last directory separator.\<close>

definition filename :: "path \<Rightarrow> string" where
  "filename p = rev (takeWhile (\<lambda>c. c \<noteq> CHR ''/'') (rev p))"

text \<open>Lines 190--194.\<close>

definition emit_line :: "path \<Rightarrow> Result \<Rightarrow> string" where
  "emit_line p res =
     (if ok res then filename p @ [tab] @ md5hex res @ [nl]
      else filename p @ [tab] @ ''ERROR: '' @ err res @ [nl])"

text \<open>Lines 136--143: the queue holds one task per file, in order; the result table
  has one empty slot per file.\<close>

definition make_queue :: "path list \<Rightarrow> Task list" where
  "make_queue fl = map (\<lambda>i. \<lparr>index = i, path = fl ! i\<rparr>) [0..<length fl]"

definition init :: "config \<Rightarrow> state" where
  "init c =
     \<lparr>q = make_queue (files c), results = replicate (length (files c)) None,
      done_flag = False, pool = [], next_idx = 0, joined = 0, pc = Starting, cout = [],
      aborted = False\<rparr>"

text \<open>
  One step of one thread; \<open>None\<close> when the step is not enabled.  \<open>Spawn\<close> is an iteration
  of line 176, after line 175 has gone through, and \<open>Begin\<close> leaves that loop (lines
  179--182).  \<open>Abort\<close> is line 175 or the next iteration of line 176 throwing: only
  this step is enabled there when \<^verbatim>\<open>threads\<close> is above \<open>vector_max_size\<close>.  \<open>Take w\<close> and \<open>Leave w\<close> are
  the critical section of lines 148--154 of worker \<open>w\<close>, \<open>Hash w\<close> is lines 156--163 and
  \<open>Publish w\<close> lines 165--169.  \<open>Emit\<close> is an iteration of the collector loop, lines
  184--195, and \<open>Shutdown\<close> leaves it (lines 199--203).  \<open>Join\<close> is an iteration of line
  205 and \<open>Return\<close> is line 206.  A vector is only indexed inside its bounds.  The
  cursor \<^verbatim>\<open>next\<close> of line 182 and the position of the loop of line 205 are fields of
  the state from the start, with their initial value 0.
\<close>

fun step :: "config \<Rightarrow> action \<Rightarrow> state \<Rightarrow> state option" where
  "step c Spawn s =
     (if \<not> aborted s \<and> pc s = Starting \<and> length (pool s) < threads c \<and>
         threads c \<le> vector_max_size
      then Some (s\<lparr>pool := pool s @ [Waiting]\<rparr>) else None)"
| "step c Abort s =
     (if \<not> aborted s \<and> pc s = Starting \<and> length (pool s) < threads c
      then Some (s\<lparr>aborted := True\<rparr>) else None)"
| "step c Begin s =
     (if \<not> aborted s \<and> pc s = Starting \<and> \<not> length (pool s) < threads c
      then Some (s\<lparr>pc := Collecting\<rparr>) else None)"
| "step c (Take w) s =
     (if \<not> aborted s \<and> w < length (pool s) \<and> pool s ! w = Waiting \<and> q s \<noteq> []
      then Some (s\<lparr>q := tl (q s), pool := (pool s)[w := Hashing (hd (q s))]\<rparr>) else None)"
| "step c (Leave w) s =
     (if \<not> aborted s \<and> w < length (pool s) \<and> pool s ! w = Waiting \<and> done_flag s \<and>
         q s = []
      then Some (s\<lparr>pool := (pool s)[w := Returned]\<rparr>) else None)"
| "step c (Hash w) s =
     (if \<not> aborted s \<and> w < length (pool s) then
        (case pool s ! w of
           Hashing t \<Rightarrow> Some (s\<lparr>pool := (pool s)[w := Publishing t (hashf c (path t))]\<rparr>)
         | _ \<Rightarrow> None)
      else None)"
| "step c (Publish w) s =
     (if \<not> aborted s \<and> w < length (pool s) then
        (case pool s ! w of
           Publishing t r \<Rightarrow>
             if index t < length (results s)
             then Some (s\<lparr>results := (results s)[index t := Some r],
                         pool := (pool s)[w := Waiting]\<rparr>)
             else None
         | _ \<Rightarrow> None)
      else None)"
| "step c Emit s =
     (if \<not> aborted s \<and> pc s = Collecting \<and> next_idx s < length (files c) \<and>
         next_idx s < length (results s)
      then
        (case results s ! next_idx s of
           Some res \<Rightarrow>
             Some (s\<lparr>cout := cout s @ emit_line (files c ! next_idx s) res,
                     next_idx := next_idx s + 1\<rparr>)
         | None \<Rightarrow> None)
      else None)"
| "step c Shutdown s =
     (if \<not> aborted s \<and> pc s = Collecting \<and> \<not> next_idx s < length (files c)
      then Some (s\<lparr>done_flag := True, pc := Joining\<rparr>) else None)"
| "step c Join s =
     (if \<not> aborted s \<and> pc s = Joining \<and> joined s < length (pool s) \<and>
         pool s ! joined s = Returned
      then Some (s\<lparr>joined := joined s + 1\<rparr>) else None)"
| "step c Return s =
     (if \<not> aborted s \<and> pc s = Joining \<and> \<not> joined s < length (pool s)
      then Some (s\<lparr>pc := Exited 0\<rparr>) else None)"

fun run :: "config \<Rightarrow> action list \<Rightarrow> state \<Rightarrow> state option" where
  "run c [] s = Some s"
| "run c (a # as) s = (case step c a s of None \<Rightarrow> None | Some s' \<Rightarrow> run c as s')"

text \<open>The steps of a schedule that were taken, each with the state it was taken in.\<close>

fun history :: "config \<Rightarrow> action list \<Rightarrow> state \<Rightarrow> (action \<times> state) list" where
  "history c [] s = []"
| "history c (a # as) s =
     (case step c a s of None \<Rightarrow> [] | Some s' \<Rightarrow> (a, s) # history c as s')"

text \<open>What a step did, read off the state it was taken in: the index the collector
  emitted, the index of the task a worker took from the queue, the slot a worker
  wrote, the index of the task a worker hashed.\<close>

fun emitted_at :: "action \<times> state \<Rightarrow> nat list" where
  "emitted_at (Emit, s) = [next_idx s]"
| "emitted_at (a, s) = []"

fun dequeued_at :: "action \<times> state \<Rightarrow> nat list" where
  "dequeued_at (Take w, s) = [index (hd (q s))]"
| "dequeued_at (a, s) = []"

fun written_at :: "action \<times> state \<Rightarrow> nat list" where
  "written_at (Publish w, s) =
     (case pool s ! w of Publishing t r \<Rightarrow> [index t] | _ \<Rightarrow> [])"
| "written_at (a, s) = []"

fun hashed_at :: "action \<times> state \<Rightarrow> nat list" where
  "hashed_at (Hash w, s) =
     (case pool s ! w of Hashing t \<Rightarrow> [index t] | _ \<Rightarrow> [])"
| "hashed_at (a, s) = []"

definition emitted :: "(action \<times> state) list \<Rightarrow> nat list" where
  "emitted h = concat (map emitted_at h)"

definition dequeued :: "(action \<times> state) list \<Rightarrow> nat list" where
  "dequeued h = concat (map dequeued_at h)"

definition written :: "(action \<times> state) list \<Rightarrow> nat list" where
  "written h = concat (map written_at h)"

definition hashed :: "(action \<times> state) list \<Rightarrow> nat list" where
  "hashed h = concat (map hashed_at h)"

text \<open>
  How the program ends: \<^verbatim>\<open>main\<close> returns its exit code, having written the two texts
  to \<^verbatim>\<open>std::cout\<close> and \<^verbatim>\<open>std::cerr\<close>, or \<^verbatim>\<open>std::terminate\<close> aborts the process.
\<close>

datatype outcome = Finished int string string | Terminated

text \<open>The configuration of the pool for a worker count of type \<^verbatim>\<open>std::size_t\<close>, and
  the whole program: its outcome when the schedule runs it to its end, \<open>None\<close> when the
  schedule does not.\<close>

definition config_of :: "md5_fun \<Rightarrow> filesystem \<Rightarrow> size_t \<Rightarrow> path list \<Rightarrow> config" where
  "config_of md5 fs n fl =
     \<lparr>threads = unat n, files = fl, hashf = (\<lambda>p. hash_task md5 (fs_open fs p))\<rparr>"

definition main ::
  "md5_fun \<Rightarrow> filesystem \<Rightarrow> string list \<Rightarrow> action list \<Rightarrow> outcome option" where
  "main md5 fs args sched =
     (case main_setup fs args of
        (out, cerr, Exit code) \<Rightarrow> Some (Finished code out cerr)
      | (out, cerr, Proceed n fl) \<Rightarrow>
          (case run (config_of md5 fs n fl) sched (init (config_of md5 fs n fl)) of
             None \<Rightarrow> None
           | Some s \<Rightarrow>
               if aborted s then Some Terminated
               else
                 (case pc s of
                    Exited code \<Rightarrow> Some (Finished code (out @ cout s) cerr)
                  | _ \<Rightarrow> None)))"

section \<open>An example run\<close>

text \<open>
  The scenario of the spec: a directory \<open>d\<close> with \<open>a.txt\<close> (content \<open>hello\<close>), the empty
  \<open>b.txt\<close>, a file \<open>c.bin\<close> that cannot be opened, and a subdirectory.  The traversal
  meets the entries in no particular order.  \<open>ex_md5\<close> stands in for the digest
  function where a concrete one is needed; nothing proved below depends on it.
\<close>

definition ex_md5 :: md5_fun where
  "ex_md5 bs i = of_nat (length bs + 17 * i)"

definition ex_fs :: filesystem where
  "ex_fs =
     \<lparr>fs_exists = (\<lambda>p. p \<in> set [''d'', ''d/a.txt'', ''d/b.txt'', ''d/c.bin'', ''d/sub'']),
      fs_is_regular_file = (\<lambda>p. p \<in> set [''d/a.txt'', ''d/b.txt'', ''d/c.bin'']),
      fs_is_directory = (\<lambda>p. p \<in> set [''d'', ''d/sub'']),
      fs_walk = (\<lambda>p. if p = ''d''
         then [Walk_entry ''d/c.bin'' True, Walk_entry ''d/a.txt'' True,
               Walk_entry ''d/sub'' False, Walk_entry ''d/b.txt'' True]
         else []),
      fs_open = (\<lambda>p. if p = ''d/a.txt'' then Opened [([104, 101, 108, 108, 111], Eof)]
         else if p = ''d/b.txt'' then Opened [([], Eof)]
         else Cannot_open)\<rparr>"

definition ex_files :: "path list" where
  "ex_files = [''d/a.txt'', ''d/b.txt'', ''d/c.bin'']"

text \<open>The pool starts; the workers take the three tasks.\<close>

definition ex_start :: "action list" where
  "ex_start =
     [Spawn, Spawn, Spawn, Spawn, Spawn, Spawn, Spawn, Spawn, Begin, Take 0, Take 1, Take 2]"

text \<open>Index 2 is finished first, index 1 last; the collector emits as soon as it can.\<close>

definition ex_work :: "action list" where
  "ex_work =
     [Hash 2, Publish 2, Hash 0, Publish 0, Emit, Hash 1, Publish 1, Emit, Emit]"

definition ex_stop :: "action list" where
  "ex_stop =
     [Shutdown, Leave 0, Leave 1, Leave 2, Leave 3, Leave 4, Leave 5, Leave 6, Leave 7,
      Join, Join, Join, Join, Join, Join, Join, Join, Return]"


section \<open>Invariants of the pool and the collector\<close>

text \<open>The indices of the tasks the workers hold: taken from the queue, result not yet
  written.\<close>

fun holding :: "worker \<Rightarrow> nat list" where
  "holding (Hashing t) = [index t]"
| "holding (Publishing t r) = [index t]"
| "holding Waiting = []"
| "holding Returned = []"

definition in_flight :: "worker list \<Rightarrow> nat list" where
  "in_flight ws = concat (map holding ws)"

text \<open>A worker's task is one of the queue's, and the result it is about to publish is
  the outcome of hashing the task's path.\<close>

fun worker_ok :: "config \<Rightarrow> worker \<Rightarrow> bool" where
  "worker_ok c (Hashing t) = (index t < length (files c) \<and> path t = files c ! index t)"
| "worker_ok c (Publishing t r) =
     (index t < length (files c) \<and> path t = files c ! index t \<and> r = hashf c (path t))"
| "worker_ok c Waiting = True"
| "worker_ok c Returned = True"

text \<open>
  The invariant of queue, workers and result table, over the history \<open>h\<close> that led to
  the state \<open>s\<close>: the tasks were taken in index order, the queue holds the rest, each
  task taken is either held by a worker or written, and the written slots are the
  filled ones.
\<close>

definition inv_tasks :: "config \<Rightarrow> (action \<times> state) list \<Rightarrow> state \<Rightarrow> bool" where
  "inv_tasks c h s \<longleftrightarrow>
     dequeued h = [0..<length (dequeued h)] \<and>
     length (dequeued h) \<le> length (files c) \<and>
     q s = drop (length (dequeued h)) (make_queue (files c)) \<and>
     mset (written h) + mset (in_flight (pool s)) = mset (dequeued h) \<and>
     (\<forall>w \<in> set (pool s). worker_ok c w) \<and>
     length (results s) = length (files c) \<and>
     (\<forall>i < length (files c).
        results s ! i =
          (if i \<in> set (written h) then Some (hashf c (files c ! i)) else None))"

text \<open>The invariant of the collector: it has emitted the indices below its cursor, in
  order, each from a filled slot.\<close>

definition inv_out :: "config \<Rightarrow> (action \<times> state) list \<Rightarrow> state \<Rightarrow> bool" where
  "inv_out c h s \<longleftrightarrow>
     emitted h = [0..<next_idx s] \<and>
     next_idx s \<le> length (files c) \<and>
     cout s =
       concat (map (\<lambda>i. emit_line (files c ! i) (hashf c (files c ! i))) [0..<next_idx s]) \<and>
     (\<forall>i < next_idx s. i \<in> set (written h))"

text \<open>The invariant of the main thread and the pool's life cycle.\<close>

definition inv_main :: "config \<Rightarrow> state \<Rightarrow> bool" where
  "inv_main c s \<longleftrightarrow>
     length (pool s) \<le> threads c \<and>
     (pc s \<noteq> Starting \<longrightarrow> length (pool s) = threads c) \<and>
     (done_flag s \<longleftrightarrow> pc s \<noteq> Starting \<and> pc s \<noteq> Collecting) \<and>
     (done_flag s \<longrightarrow> next_idx s = length (files c)) \<and>
     (Returned \<in> set (pool s) \<longrightarrow> done_flag s) \<and>
     (aborted s \<longrightarrow> pc s = Starting) \<and>
     joined s \<le> length (pool s) \<and>
     next_idx s \<le> length (files c) \<and>
     (\<forall>code. pc s = Exited code \<longrightarrow> code = 0)"

text \<open>The indices of the tasks hashed and not yet written: every task hashed is
  either written or about to be.\<close>

fun publishing :: "worker \<Rightarrow> nat list" where
  "publishing (Publishing t r) = [index t]"
| "publishing (Hashing t) = []"
| "publishing Waiting = []"
| "publishing Returned = []"

definition inv_hashed :: "(action \<times> state) list \<Rightarrow> state \<Rightarrow> bool" where
  "inv_hashed h s \<longleftrightarrow>
     mset (hashed h) = mset (written h) + mset (concat (map publishing (pool s)))"

text \<open>A bound on the number of steps still to come: every step lowers it.\<close>

fun worker_rank :: "worker \<Rightarrow> nat" where
  "worker_rank (Hashing t) = 3"
| "worker_rank (Publishing t r) = 2"
| "worker_rank Waiting = 1"
| "worker_rank Returned = 0"

fun pc_rank :: "main_pc \<Rightarrow> nat" where
  "pc_rank Starting = 3"
| "pc_rank Collecting = 2"
| "pc_rank Joining = 1"
| "pc_rank (Exited code) = 0"

definition budget :: "config \<Rightarrow> state \<Rightarrow> nat" where
  "budget c s =
     3 * length (q s) + sum_list (map worker_rank (pool s)) +
     2 * (threads c - length (pool s)) + (length (files c) - next_idx s) +
     (threads c - joined s) + pc_rank (pc s) + (if aborted s then 0 else 1)"

section \<open>The hexadecimal rendering\<close>


lemma hex_digits_byte:
  "n < 256 \<Longrightarrow> hex_digits n =
     (if n < 16 then [hex_digit n] else [hex_digit (n div 16), hex_digit (n mod 16)])"
  by (subst hex_digits.simps, subst hex_digits.simps) auto

lemma hex_digit_0: "hex_digit 0 = CHR ''0''"
  by (simp add: hex_digit_def uppercase_hex_def)

lemma put_byte_eq:
  "put_byte b = [hex_digit (unat b div 16), hex_digit (unat b mod 16)]"
proof -
  have lt: "unat b < 256"
    using unsigned_less [of b, where ?'a = nat] by simp
  show ?thesis
    by (simp add: put_byte_def hex_digits_byte [OF lt] setw_fill_def hex_digit_0)
qed












section \<open>Runs of the pool and the collector\<close>

subsection \<open>Schedules\<close>

lemma run_snoc:
  "run c (as @ [a]) s = (case run c as s of None \<Rightarrow> None | Some s' \<Rightarrow> step c a s')"
  by (induction as arbitrary: s) (simp_all split: option.splits)

lemma history_snoc:
  "run c as s = Some s' \<Longrightarrow>
   history c (as @ [a]) s =
     history c as s @ (case step c a s' of None \<Rightarrow> [] | Some _ \<Rightarrow> [(a, s')])"
  by (induction as arbitrary: s) (simp_all split: option.splits)

lemma run_induct [consumes 1, case_names init step]:
  assumes "run c as s0 = Some s"
    and "P [] s0"
    and "\<And>as a s s'. run c as s0 = Some s \<Longrightarrow> P as s \<Longrightarrow> step c a s = Some s' \<Longrightarrow> P (as @ [a]) s'"
  shows "P as s"
  using assms(1)
proof (induction as arbitrary: s rule: rev_induct)
  case Nil
  then show ?case using assms(2) by simp
next
  case (snoc a as)
  from snoc.prems obtain s1 where r: "run c as s0 = Some s1" and st: "step c a s1 = Some s"
    by (auto simp: run_snoc split: option.splits)
  from assms(3) [OF r snoc.IH [OF r] st] show ?case .
qed

subsection \<open>The invariant of queue, workers and result table\<close>

lemma length_make_queue: "length (make_queue fl) = length fl"
  by (simp add: make_queue_def)

lemma make_queue_nth: "k < length fl \<Longrightarrow> make_queue fl ! k = \<lparr>index = k, path = fl ! k\<rparr>"
  by (simp add: make_queue_def)

lemma drop_make_queue_nonempty: "drop k (make_queue fl) \<noteq> [] \<longleftrightarrow> k < length fl"
  by (auto simp: length_make_queue)

lemma hd_drop_make_queue:
  "k < length fl \<Longrightarrow> hd (drop k (make_queue fl)) = \<lparr>index = k, path = fl ! k\<rparr>"
  by (simp add: hd_drop_conv_nth length_make_queue make_queue_nth)

lemma in_flight_update:
  "w < length ws \<Longrightarrow>
   mset (in_flight (ws[w := x])) + mset (holding (ws ! w)) = mset (in_flight ws) + mset (holding x)"
proof (induction ws arbitrary: w)
  case Nil
  then show ?case by simp
next
  case (Cons a ws)
  show ?case
  proof (cases w)
    case 0
    then show ?thesis by (simp add: in_flight_def)
  next
    case (Suc v)
    with Cons.prems have "v < length ws" by simp
    from Cons.IH [OF this] show ?thesis
      using Suc by (simp add: in_flight_def ac_simps)
  qed
qed

lemma in_flight_snoc: "in_flight (ws @ [Waiting]) = in_flight ws"
  by (simp add: in_flight_def)

lemma worker_ok_update:
  "\<forall>w \<in> set ws. worker_ok c w \<Longrightarrow> worker_ok c x \<Longrightarrow> \<forall>w \<in> set (ws[i := x]). worker_ok c w"
  using set_update_subset_insert [of ws i x] by auto

lemma dequeued_snoc: "dequeued (h @ [e]) = dequeued h @ dequeued_at e"
  by (simp add: dequeued_def)

lemma written_snoc: "written (h @ [e]) = written h @ written_at e"
  by (simp add: written_def)

lemma emitted_snoc: "emitted (h @ [e]) = emitted h @ emitted_at e"
  by (simp add: emitted_def)

lemma inv_tasks_Take:
  assumes inv: "inv_tasks c h s" and st: "step c (Take w) s = Some s'"
  shows "inv_tasks c (h @ [(Take w, s)]) s'"
proof -
  define k where "k = length (dequeued h)"
  from st have w: "w < length (pool s)" and ww: "pool s ! w = Waiting" and qn: "q s \<noteq> []"
    and s': "s' = s\<lparr>q := tl (q s), pool := (pool s)[w := Hashing (hd (q s))]\<rparr>"
    by (simp_all split: if_splits)
  from inv have d: "dequeued h = [0..<k]" and kn: "k \<le> length (files c)"
    and qs: "q s = drop k (make_queue (files c))"
    and ms: "mset (written h) + mset (in_flight (pool s)) = mset (dequeued h)"
    and wo: "\<forall>w \<in> set (pool s). worker_ok c w"
    and lr: "length (results s) = length (files c)"
    and rs: "\<forall>i < length (files c).
        results s ! i = (if i \<in> set (written h) then Some (hashf c (files c ! i)) else None)"
    unfolding inv_tasks_def k_def by simp_all
  from qn qs have k: "k < length (files c)" by (simp only: drop_make_queue_nonempty)
  have hd: "hd (q s) = \<lparr>index = k, path = files c ! k\<rparr>"
    unfolding qs by (rule hd_drop_make_queue [OF k])
  have d': "dequeued (h @ [(Take w, s)]) = [0..<Suc k]"
    by (simp add: dequeued_snoc d hd)
  have wr': "written (h @ [(Take w, s)]) = written h"
    by (simp add: written_snoc)
  have q': "q s' = drop (Suc k) (make_queue (files c))"
    by (simp add: s' qs drop_Suc tl_drop)
  have "mset (in_flight (pool s')) + mset (holding (pool s ! w)) =
      mset (in_flight (pool s)) + mset (holding (Hashing (hd (q s))))"
    unfolding s' using in_flight_update [OF w] by simp
  then have fl: "mset (in_flight (pool s')) = mset (in_flight (pool s)) + {#k#}"
    by (simp add: ww hd)
  have ms': "mset (written h) + mset (in_flight (pool s')) = mset [0..<Suc k]"
    using ms by (simp add: fl d)
  have wo': "\<forall>w \<in> set (pool s'). worker_ok c w"
    unfolding s' using worker_ok_update [OF wo, of "Hashing (hd (q s))" w] k by (simp add: hd)
  have r': "results s' = results s" by (simp add: s')
  show ?thesis
    unfolding inv_tasks_def d' wr' r' using k q' ms' wo' lr rs by simp
qed


lemma inv_tasks_Hash:
  assumes inv: "inv_tasks c h s" and st: "step c (Hash w) s = Some s'"
  shows "inv_tasks c (h @ [(Hash w, s)]) s'"
proof -
  from st obtain t where w: "w < length (pool s)" and ww: "pool s ! w = Hashing t"
    and s': "s' = s\<lparr>pool := (pool s)[w := Publishing t (hashf c (path t))]\<rparr>"
    by (auto split: if_splits worker.splits)
  from inv have wo: "\<forall>w \<in> set (pool s). worker_ok c w"
    unfolding inv_tasks_def by simp
  from w ww have "Hashing t \<in> set (pool s)" by (metis nth_mem)
  with wo have t: "worker_ok c (Hashing t)" by blast
  have d': "dequeued (h @ [(Hash w, s)]) = dequeued h"
    by (simp add: dequeued_snoc)
  have wr': "written (h @ [(Hash w, s)]) = written h"
    by (simp add: written_snoc)
  have "mset (in_flight (pool s')) + mset (holding (pool s ! w)) =
      mset (in_flight (pool s)) + mset (holding (Publishing t (hashf c (path t))))"
    unfolding s' using in_flight_update [OF w] by simp
  then have fl: "mset (in_flight (pool s')) = mset (in_flight (pool s))"
    by (simp add: ww)
  have wo': "\<forall>w \<in> set (pool s'). worker_ok c w"
    unfolding s' using worker_ok_update [OF wo, of "Publishing t (hashf c (path t))" w] t
    by simp
  have r': "results s' = results s" and q': "q s' = q s" by (simp_all add: s')
  show ?thesis
    using inv unfolding inv_tasks_def d' wr' r' q' fl using wo' by simp
qed

lemma inv_tasks_Publish:
  assumes inv: "inv_tasks c h s" and st: "step c (Publish w) s = Some s'"
  shows "inv_tasks c (h @ [(Publish w, s)]) s'"
proof -
  from st obtain t r where w: "w < length (pool s)" and ww: "pool s ! w = Publishing t r"
    and s': "s' = s\<lparr>results := (results s)[index t := Some r], pool := (pool s)[w := Waiting]\<rparr>"
    by (auto split: if_splits worker.splits)
  from inv have wo: "\<forall>w \<in> set (pool s). worker_ok c w"
    and ms: "mset (written h) + mset (in_flight (pool s)) = mset (dequeued h)"
    and lr: "length (results s) = length (files c)"
    and rs: "\<forall>i < length (files c).
        results s ! i = (if i \<in> set (written h) then Some (hashf c (files c ! i)) else None)"
    unfolding inv_tasks_def by simp_all
  from w ww have "Publishing t r \<in> set (pool s)" by (metis nth_mem)
  with wo have "worker_ok c (Publishing t r)" by blast
  then have t: "index t < length (files c)" and r: "r = hashf c (files c ! index t)"
    by simp_all
  have d': "dequeued (h @ [(Publish w, s)]) = dequeued h"
    by (simp add: dequeued_snoc)
  have wr': "written (h @ [(Publish w, s)]) = written h @ [index t]"
    by (simp add: written_snoc ww)
  have "mset (in_flight (pool s')) + mset (holding (pool s ! w)) =
      mset (in_flight (pool s)) + mset (holding Waiting)"
    unfolding s' using in_flight_update [OF w] by simp
  then have fl: "mset (in_flight (pool s')) + {#index t#} = mset (in_flight (pool s))"
    by (simp add: ww)
  have ms': "mset (written h @ [index t]) + mset (in_flight (pool s')) = mset (dequeued h)"
    using ms fl [symmetric] by simp
  have wo': "\<forall>w \<in> set (pool s'). worker_ok c w"
    unfolding s' using worker_ok_update [OF wo, of Waiting w] by simp
  have q': "q s' = q s" and lr': "length (results s') = length (files c)"
    by (simp_all add: s' lr)
  have rs': "\<forall>i < length (files c).
        results s' ! i =
          (if i \<in> set (written h @ [index t]) then Some (hashf c (files c ! i)) else None)"
    using rs t lr by (simp add: s' r nth_list_update)
  show ?thesis
    using inv unfolding inv_tasks_def d' wr' q' using ms' wo' lr' rs' by simp
qed

lemma inv_tasks_other:
  assumes inv: "inv_tasks c h s" and st: "step c a s = Some s'"
    and a: "a \<in> {Spawn, Abort, Begin, Leave w, Emit, Shutdown, Join, Return}"
  shows "inv_tasks c (h @ [(a, s)]) s'"
proof -
  have d': "dequeued (h @ [(a, s)]) = dequeued h"
    using a by (auto simp: dequeued_snoc)
  have wr': "written (h @ [(a, s)]) = written h"
    using a by (auto simp: written_snoc)
  from inv have wo: "\<forall>w \<in> set (pool s). worker_ok c w"
    unfolding inv_tasks_def by simp
  have q': "q s' = q s" and r': "results s' = results s"
    using a st by (auto split: if_splits option.splits)
  have fl: "mset (in_flight (pool s')) = mset (in_flight (pool s))"
  proof (cases "a = Leave w")
    case True
    with st have w: "w < length (pool s)" and ww: "pool s ! w = Waiting"
      and s': "s' = s\<lparr>pool := (pool s)[w := Returned]\<rparr>"
      by (simp_all split: if_splits)
    have "mset (in_flight (pool s')) + mset (holding (pool s ! w)) =
      mset (in_flight (pool s)) + mset (holding Returned)"
      unfolding s' using in_flight_update [OF w] by simp
    then show ?thesis by (simp add: ww)
  next
    case False
    with a st show ?thesis
      by (auto simp: in_flight_snoc split: if_splits option.splits)
  qed
  have wo': "\<forall>w \<in> set (pool s'). worker_ok c w"
  proof (cases "a = Leave w")
    case True
    with st have s': "s' = s\<lparr>pool := (pool s)[w := Returned]\<rparr>"
      by (simp_all split: if_splits)
    show ?thesis
      unfolding s' using worker_ok_update [OF wo, of Returned w] by simp
  next
    case False
    with a st wo show ?thesis
      by (auto split: if_splits option.splits)
  qed
  show ?thesis
    using inv unfolding inv_tasks_def d' wr' q' r' fl using wo' by simp
qed

lemma inv_tasks_step:
  assumes "inv_tasks c h s" and "step c a s = Some s'"
  shows "inv_tasks c (h @ [(a, s)]) s'"
proof (cases a)
  case (Take w)
  with assms show ?thesis using inv_tasks_Take by blast
next
  case (Hash w)
  with assms show ?thesis using inv_tasks_Hash by blast
next
  case (Publish w)
  with assms show ?thesis using inv_tasks_Publish by blast
next
  case (Leave w)
  with assms show ?thesis using inv_tasks_other [of c h s a s' w] by blast
qed (use assms inv_tasks_other [of c h s a s' 0] in blast)+

lemma inv_tasks_init: "inv_tasks c [] (init c)"
  by (simp add: inv_tasks_def init_def dequeued_def written_def in_flight_def)

lemma inv_out_init: "inv_out c [] (init c)"
  by (simp add: inv_out_def init_def emitted_def)

lemma inv_main_init: "inv_main c (init c)"
  by (simp add: inv_main_def init_def)

lemma in_set_updateD: "x \<in> set (xs[i := y]) \<Longrightarrow> x = y \<or> x \<in> set xs"
  using set_update_subset_insert [of xs i y] by auto

lemma inv_main_step:
  assumes "inv_main c s" and "step c a s = Some s'"
  shows "inv_main c s'"
proof (cases a)
  case (Leave w)
  with assms show ?thesis
    by (auto simp: inv_main_def split: if_splits dest: in_set_updateD)
next
  case (Take w)
  with assms show ?thesis
    by (auto simp: inv_main_def split: if_splits dest: in_set_updateD)
next
  case (Hash w)
  with assms show ?thesis
    by (auto simp: inv_main_def split: if_splits worker.splits dest: in_set_updateD)
next
  case (Publish w)
  with assms show ?thesis
    by (auto simp: inv_main_def split: if_splits worker.splits dest: in_set_updateD)
next
  case Emit
  with assms show ?thesis
    by (auto simp: inv_main_def split: if_splits option.splits)
qed (use assms in \<open>auto simp: inv_main_def split: if_splits\<close>)

lemma inv_out_Emit:
  assumes io: "inv_out c h s" and it: "inv_tasks c h s" and st: "step c Emit s = Some s'"
  shows "inv_out c (h @ [(Emit, s)]) s'"
proof -
  define n where "n = next_idx s"
  from st obtain res where n: "n < length (files c)" and r: "results s ! n = Some res"
    and s': "s' = s\<lparr>cout := cout s @ emit_line (files c ! n) res, next_idx := n + 1\<rparr>"
    unfolding n_def by (auto split: if_splits option.splits)
  from it n have "results s ! n =
      (if n \<in> set (written h) then Some (hashf c (files c ! n)) else None)"
    unfolding inv_tasks_def by blast
  with r have nw: "n \<in> set (written h)" and res: "res = hashf c (files c ! n)"
    by (simp_all split: if_splits)
  from io have e: "emitted h = [0..<n]"
    and co: "cout s = concat (map (\<lambda>i. emit_line (files c ! i) (hashf c (files c ! i))) [0..<n])"
    and wr: "\<forall>i < n. i \<in> set (written h)"
    unfolding inv_out_def n_def by simp_all
  have e': "emitted (h @ [(Emit, s)]) = [0..<Suc n]"
    by (simp add: emitted_snoc e n_def)
  have wr': "written (h @ [(Emit, s)]) = written h"
    by (simp add: written_snoc)
  have nx: "next_idx s' = Suc n" by (simp add: s')
  have co': "cout s' =
      concat (map (\<lambda>i. emit_line (files c ! i) (hashf c (files c ! i))) [0..<Suc n])"
    by (simp add: s' co res)
  have "\<forall>i < Suc n. i \<in> set (written h)"
    using wr nw by (simp add: less_Suc_eq)
  then show ?thesis
    unfolding inv_out_def e' wr' nx using n co' by simp
qed

lemma inv_out_step:
  assumes io: "inv_out c h s" and it: "inv_tasks c h s" and st: "step c a s = Some s'"
  shows "inv_out c (h @ [(a, s)]) s'"
proof (cases "a = Emit")
  case True
  with assms show ?thesis using inv_out_Emit by blast
next
  case False
  then have e': "emitted (h @ [(a, s)]) = emitted h"
    by (cases a) (simp_all add: emitted_snoc)
  have "set (written h) \<subseteq> set (written (h @ [(a, s)]))"
    by (simp add: written_snoc)
  moreover have "next_idx s' = next_idx s" and "cout s' = cout s"
    using False st by (cases a; auto split: if_splits worker.splits)+
  ultimately show ?thesis
    using io unfolding inv_out_def e' by auto
qed

lemma history_step:
  "run c as s0 = Some s \<Longrightarrow> step c a s = Some s' \<Longrightarrow>
   history c (as @ [a]) s0 = history c as s0 @ [(a, s)]"
  by (simp add: history_snoc)

lemma run_invariant:
  assumes "run c as (init c) = Some s"
  shows "inv_tasks c (history c as (init c)) s \<and> inv_out c (history c as (init c)) s \<and>
    inv_main c s"
  using assms
proof (induction rule: run_induct)
  case init
  show ?case using inv_tasks_init inv_out_init inv_main_init by simp
next
  case (step as a s s')
  then have h: "history c (as @ [a]) (init c) = history c as (init c) @ [(a, s)]"
    by (simp add: history_step)
  from step show ?case
    unfolding h using inv_tasks_step inv_out_step inv_main_step by blast
qed

subsection \<open>Hashed tasks, and the bound on the steps\<close>

lemma hashed_snoc: "hashed (h @ [e]) = hashed h @ hashed_at e"
  by (simp add: hashed_def)

lemma publishing_update:
  "w < length ws \<Longrightarrow>
   mset (concat (map publishing (ws[w := x]))) + mset (publishing (ws ! w)) =
   mset (concat (map publishing ws)) + mset (publishing x)"
proof (induction ws arbitrary: w)
  case Nil
  then show ?case by simp
next
  case (Cons a ws)
  show ?case
  proof (cases w)
    case 0
    then show ?thesis by simp
  next
    case (Suc v)
    with Cons.prems have "v < length ws" by simp
    from Cons.IH [OF this] show ?thesis
      using Suc by (simp add: ac_simps)
  qed
qed

lemma inv_hashed_step:
  assumes inv: "inv_hashed h s" and st: "step c a s = Some s'"
  shows "inv_hashed (h @ [(a, s)]) s'"
proof (cases a)
  case (Hash w)
  with st obtain t where w: "w < length (pool s)" and ww: "pool s ! w = Hashing t"
    and s': "s' = s\<lparr>pool := (pool s)[w := Publishing t (hashf c (path t))]\<rparr>"
    by (auto split: if_splits worker.splits)
  have "mset (concat (map publishing (pool s'))) + mset (publishing (pool s ! w)) =
      mset (concat (map publishing (pool s))) + {#index t#}"
    unfolding s' using publishing_update [OF w] by simp
  then show ?thesis
    using inv by (simp add: inv_hashed_def hashed_snoc written_snoc Hash ww)
next
  case (Publish w)
  with st obtain t r where w: "w < length (pool s)" and ww: "pool s ! w = Publishing t r"
    and s': "s' = s\<lparr>results := (results s)[index t := Some r], pool := (pool s)[w := Waiting]\<rparr>"
    by (auto split: if_splits worker.splits)
  have "mset (concat (map publishing (pool s'))) + mset (publishing (pool s ! w)) =
      mset (concat (map publishing (pool s)))"
    unfolding s' using publishing_update [OF w, of Waiting] by simp
  then have "mset (concat (map publishing (pool s))) =
      mset (concat (map publishing (pool s'))) + {#index t#}"
    by (simp add: ww)
  then show ?thesis
    using inv by (simp add: inv_hashed_def hashed_snoc written_snoc Publish ww)
next
  case (Take w)
  with st have w: "w < length (pool s)" and ww: "pool s ! w = Waiting"
    and s': "s' = s\<lparr>q := tl (q s), pool := (pool s)[w := Hashing (hd (q s))]\<rparr>"
    by (simp_all split: if_splits)
  have "mset (concat (map publishing (pool s'))) + mset (publishing (pool s ! w)) =
      mset (concat (map publishing (pool s)))"
    unfolding s' using publishing_update [OF w, of "Hashing (hd (q s))"] by simp
  then show ?thesis
    using inv by (simp add: inv_hashed_def hashed_snoc written_snoc Take ww)
next
  case (Leave w)
  with st have w: "w < length (pool s)" and ww: "pool s ! w = Waiting"
    and s': "s' = s\<lparr>pool := (pool s)[w := Returned]\<rparr>"
    by (simp_all split: if_splits)
  have "mset (concat (map publishing (pool s'))) + mset (publishing (pool s ! w)) =
      mset (concat (map publishing (pool s)))"
    unfolding s' using publishing_update [OF w, of Returned] by simp
  then show ?thesis
    using inv by (simp add: inv_hashed_def hashed_snoc written_snoc Leave ww)
qed (use assms in \<open>auto simp: inv_hashed_def hashed_snoc written_snoc split: if_splits option.splits\<close>)

lemma run_inv_hashed:
  assumes "run c as (init c) = Some s"
  shows "inv_hashed (history c as (init c)) s"
  using assms
proof (induction rule: run_induct)
  case init
  show ?case by (simp add: inv_hashed_def hashed_def written_def init_def)
next
  case (step as a s s')
  then show ?case
    using inv_hashed_step by (simp add: history_step)
qed

lemma sum_rank_update:
  "w < length ws \<Longrightarrow>
   sum_list (map worker_rank (ws[w := x])) + worker_rank (ws ! w) =
   sum_list (map worker_rank ws) + worker_rank x"
proof (induction ws arbitrary: w)
  case Nil
  then show ?case by simp
next
  case (Cons a ws)
  show ?case
  proof (cases w)
    case 0
    then show ?thesis by simp
  next
    case (Suc v)
    with Cons.prems have "v < length ws" by simp
    from Cons.IH [OF this] show ?thesis
      using Suc by simp
  qed
qed

lemma step_budget:
  assumes im: "inv_main c s" and st: "step c a s = Some s'"
  shows "budget c s' < budget c s"
proof (cases a)
  case (Take w)
  with st have w: "w < length (pool s)" and ww: "pool s ! w = Waiting" and qn: "q s \<noteq> []"
    and s': "s' = s\<lparr>q := tl (q s), pool := (pool s)[w := Hashing (hd (q s))]\<rparr>"
    by (simp_all split: if_splits)
  from sum_rank_update [OF w, of "Hashing (hd (q s))"]
  have "sum_list (map worker_rank (pool s')) = sum_list (map worker_rank (pool s)) + 2"
    by (simp add: s' ww)
  moreover from qn have "length (q s) = Suc (length (tl (q s)))" by (cases "q s") simp_all
  ultimately show ?thesis by (simp add: budget_def s')
next
  case (Hash w)
  with st obtain t where w: "w < length (pool s)" and ww: "pool s ! w = Hashing t"
    and s': "s' = s\<lparr>pool := (pool s)[w := Publishing t (hashf c (path t))]\<rparr>"
    by (auto split: if_splits worker.splits)
  from sum_rank_update [OF w, of "Publishing t (hashf c (path t))"]
  have "sum_list (map worker_rank (pool s')) + 1 = sum_list (map worker_rank (pool s))"
    by (simp add: s' ww)
  then show ?thesis by (simp add: budget_def s')
next
  case (Publish w)
  with st obtain t r where w: "w < length (pool s)" and ww: "pool s ! w = Publishing t r"
    and s': "s' = s\<lparr>results := (results s)[index t := Some r], pool := (pool s)[w := Waiting]\<rparr>"
    by (auto split: if_splits worker.splits)
  from sum_rank_update [OF w, of Waiting]
  have "sum_list (map worker_rank (pool s')) + 1 = sum_list (map worker_rank (pool s))"
    by (simp add: s' ww)
  then show ?thesis by (simp add: budget_def s')
next
  case (Leave w)
  with st have w: "w < length (pool s)" and ww: "pool s ! w = Waiting"
    and s': "s' = s\<lparr>pool := (pool s)[w := Returned]\<rparr>"
    by (simp_all split: if_splits)
  from sum_rank_update [OF w, of Returned]
  have "sum_list (map worker_rank (pool s')) + 1 = sum_list (map worker_rank (pool s))"
    by (simp add: s' ww)
  then show ?thesis by (simp add: budget_def s')
next
  case Join
  with st have "joined s < length (pool s)" and s': "s' = s\<lparr>joined := joined s + 1\<rparr>"
    by (simp_all split: if_splits)
  moreover from im have "length (pool s) \<le> threads c" by (simp add: inv_main_def)
  ultimately show ?thesis by (simp add: budget_def)
qed (use st in \<open>auto simp: budget_def split: if_splits option.splits\<close>)

subsection \<open>Progress and termination\<close>











text \<open>Above the vector's bound no worker is ever started: the pool stays empty and the
  main thread stays in the start of the pool.\<close>

lemma no_pool_above_max:
  assumes "vector_max_size < threads c" and "run c as (init c) = Some s"
  shows "pool s = [] \<and> pc s = Starting"
  using assms(2)
proof (induction rule: run_induct)
  case init
  show ?case by (simp add: init_def)
next
  case (step as a s s')
  with assms(1) show ?case
    by (cases a) (auto split: if_splits worker.splits option.splits)
qed

lemma run_bounded_aux:
  "run c bs s = Some s' \<Longrightarrow> run c as (init c) = Some s \<Longrightarrow>
   length bs + budget c s' \<le> budget c s"
proof (induction bs arbitrary: s as)
  case Nil
  then show ?case by simp
next
  case (Cons a bs)
  from Cons.prems(1) obtain s1 where st: "step c a s = Some s1" and r: "run c bs s1 = Some s'"
    by (auto split: option.splits)
  from run_invariant [OF Cons.prems(2)] have im: "inv_main c s" by simp
  from step_budget [OF im st] have lt: "budget c s1 < budget c s" .
  from Cons.prems(2) st have "run c (as @ [a]) (init c) = Some s1" by (simp add: run_snoc)
  from Cons.IH [OF r this] lt show ?case by simp
qed

lemma run_bounded:
  "run c as (init c) = Some s \<Longrightarrow> length as \<le> 4 * length (files c) + 3 * threads c + 4"
proof -
  assume r: "run c as (init c) = Some s"
  have "run c [] (init c) = Some (init c)" by simp
  from run_bounded_aux [OF r this] have "length as \<le> budget c (init c)" by simp
  also have "budget c (init c) = 4 * length (files c) + 3 * threads c + 4"
    by (simp add: budget_def init_def length_make_queue)
  finally show ?thesis .
qed

subsection \<open>What holds along a run and at its end\<close>

lemma map_nth_upt: "map (\<lambda>i. f (xs ! i)) [0..<length xs] = map f xs"
  by (rule nth_equalityI) simp_all

lemma distinct_left_of_mset_sum:
  assumes "mset xs + mset ys = mset zs" and "distinct zs"
  shows "distinct xs \<and> set xs \<subseteq> set zs"
proof -
  from assms(1) have m: "mset (xs @ ys) = mset zs" by simp
  then have "distinct (xs @ ys)" using assms(2) by (metis mset_eq_imp_distinct_iff)
  moreover from m have "set (xs @ ys) = set zs" by (rule mset_eq_setD)
  ultimately show ?thesis by auto
qed

lemma safety:
  assumes r: "run c sched (init c) = Some s"
  defines "h \<equiv> history c sched (init c)"
  shows "dequeued h = [0..<length (dequeued h)]"
    and "length (dequeued h) \<le> length (files c)"
    and "distinct (written h)"
    and "set (written h) \<subseteq> {0..<length (dequeued h)}"
    and "emitted h = [0..<next_idx s]"
    and "next_idx s \<le> length (files c)"
    and "length (results s) = length (files c)"
proof -
  from run_invariant [OF r] have it: "inv_tasks c h s" and io: "inv_out c h s"
    unfolding h_def by simp_all
  from it show d: "dequeued h = [0..<length (dequeued h)]"
    and "length (dequeued h) \<le> length (files c)"
    and "length (results s) = length (files c)"
    unfolding inv_tasks_def by simp_all
  from it have "mset (written h) + mset (in_flight (pool s)) = mset (dequeued h)"
    unfolding inv_tasks_def by simp
  moreover have "distinct (dequeued h)" by (subst d) simp
  ultimately have dw: "distinct (written h) \<and> set (written h) \<subseteq> set (dequeued h)"
    by (rule distinct_left_of_mset_sum)
  then show "distinct (written h)" by simp
  have "set (dequeued h) = {0..<length (dequeued h)}" by (subst d) simp
  with dw show "set (written h) \<subseteq> {0..<length (dequeued h)}" by simp
  from io show "emitted h = [0..<next_idx s]" and "next_idx s \<le> length (files c)"
    unfolding inv_out_def by simp_all
qed

lemma finished:
  assumes r: "run c sched (init c) = Some s" and e: "pc s = Exited code"
  defines "h \<equiv> history c sched (init c)"
  shows "code = 0"
    and "next_idx s = length (files c)"
    and "dequeued h = [0..<length (files c)]"
    and "mset (written h) = mset [0..<length (files c)]"
    and "mset (hashed h) = mset [0..<length (files c)]"
    and "q s = []"
    and "cout s = concat (map (\<lambda>p. emit_line p (hashf c p)) (files c))"
proof -
  define n where "n = length (files c)"
  from run_invariant [OF r] have it: "inv_tasks c h s" and io: "inv_out c h s"
    and im: "inv_main c s"
    unfolding h_def by simp_all
  from im e show "code = 0" by (simp add: inv_main_def)
  from im e show nx: "next_idx s = length (files c)" by (simp add: inv_main_def)
  from safety [OF r] have d: "dequeued h = [0..<length (dequeued h)]"
    and kn: "length (dequeued h) \<le> n"
    and dw: "distinct (written h)" and sw: "set (written h) \<subseteq> {0..<length (dequeued h)}"
    unfolding h_def n_def by simp_all
  from io nx have all: "\<forall>i < n. i \<in> set (written h)"
    unfolding inv_out_def n_def by simp
  have k: "length (dequeued h) = n"
  proof (rule ccontr)
    assume "length (dequeued h) \<noteq> n"
    with kn have lt: "length (dequeued h) < n" by simp
    with all have "length (dequeued h) \<in> set (written h)" by blast
    with sw show False by auto
  qed
  with d show dq: "dequeued h = [0..<length (files c)]" unfolding n_def by simp
  from all sw k have "set (written h) = set [0..<n]" by auto
  with dw have "mset (written h) = mset [0..<n]"
    by (metis distinct_upt set_eq_iff_mset_eq_distinct)
  then show mw: "mset (written h) = mset [0..<length (files c)]" unfolding n_def .
  from it have sum: "mset (written h) + mset (in_flight (pool s)) = mset (dequeued h)"
    and qs: "q s = drop (length (dequeued h)) (make_queue (files c))"
    unfolding inv_tasks_def by simp_all
  from qs k show "q s = []" by (simp add: n_def length_make_queue)
  from sum mw dq have fl: "in_flight (pool s) = []" by simp
  have "concat (map publishing (pool s)) = []"
  proof -
    have "\<And>w. holding w = [] \<Longrightarrow> publishing w = []" by (case_tac w) simp_all
    with fl show ?thesis unfolding in_flight_def by (induction "pool s") auto
  qed
  with run_inv_hashed [OF r] mw show "mset (hashed h) = mset [0..<length (files c)]"
    unfolding inv_hashed_def h_def by simp
  from io nx have "cout s =
      concat (map (\<lambda>i. emit_line (files c ! i) (hashf c (files c ! i))) [0..<length (files c)])"
    unfolding inv_out_def by simp
  then show "cout s = concat (map (\<lambda>p. emit_line p (hashf c p)) (files c))"
    by (simp only: map_nth_upt [of "\<lambda>p. emit_line p (hashf c p)" "files c"])
qed

section \<open>The claims about the pool and the collector\<close>

lemmas ex_defs = ex_md5_def ex_fs_def ex_files_def ex_start_def ex_work_def ex_stop_def
  config_of_def init_def make_queue_def vector_max_size_def

lemma publishing_sub_in_flight: "mset (concat (map publishing ws)) \<subseteq># mset (in_flight ws)"
proof (induction ws)
  case Nil
  then show ?case by (simp add: in_flight_def)
next
  case (Cons w ws)
  have "mset (publishing w) \<subseteq># mset (holding w)" by (cases w) simp_all
  with Cons show ?case by (simp add: in_flight_def subset_mset.add_mono)
qed

lemma distinct_sub_mset:
  assumes "mset xs \<subseteq># mset ys" and "distinct ys"
  shows "distinct xs"
proof -
  from assms(1) obtain zs where "mset ys = mset xs + zs"
    by (metis subset_mset.le_iff_add)
  moreover obtain zl where "zs = mset zl" by (metis ex_mset)
  ultimately have "mset xs + mset zl = mset ys" by simp
  from distinct_left_of_mset_sum [OF this assms(2)] show ?thesis by simp
qed

lemma distinct_hashed:
  assumes r: "run c sched (init c) = Some s"
  shows "distinct (hashed (history c sched (init c)))"
proof -
  define h where "h = history c sched (init c)"
  from run_invariant [OF r] have "inv_tasks c h s" unfolding h_def by simp
  then have sum: "mset (written h) + mset (in_flight (pool s)) = mset (dequeued h)"
    unfolding inv_tasks_def by simp
  from run_inv_hashed [OF r]
  have "mset (hashed h) = mset (written h) + mset (concat (map publishing (pool s)))"
    unfolding inv_hashed_def h_def .
  also have "\<dots> \<subseteq># mset (written h) + mset (in_flight (pool s))"
    using publishing_sub_in_flight by (simp add: subset_mset.add_mono)
  finally have "mset (hashed h) \<subseteq># mset (dequeued h)" unfolding sum .
  moreover have "distinct (dequeued h)"
    using safety(1) [OF r] unfolding h_def by (metis distinct_upt)
  ultimately show ?thesis
    unfolding h_def by (rule distinct_sub_mset)
qed

lemma emit_line_eq:
  "emit_line p r =
     filename p @ [tab] @ (if ok r then md5hex r else ''ERROR: '' @ err r) @ [nl]"
  by (simp add: emit_line_def)

text \<open>
  C1: along every run the collector emits the indices \<open>0, 1, 2, \<dots>\<close> in this order
  and without a gap, so index \<open>i\<close> is never emitted before index \<open>i - 1\<close>, and the text
  on the standard output is the lines of these indices in this order, each the file
  name, a tab and the digest or the error marker with the message; and the collector
  can emit as soon as the slot under its cursor is filled, whatever the state of the
  later slots and of the workers, and then appends the line of that slot.
\<close>

theorem collector_index_order:
  assumes "run c sched (init c) = Some s"
  shows "emitted (history c sched (init c)) = [0..<next_idx s] \<and>
    cout s =
      concat (map (\<lambda>i. filename (files c ! i) @ [tab] @
                      (if ok (hashf c (files c ! i)) then md5hex (hashf c (files c ! i))
                       else ''ERROR: '' @ err (hashf c (files c ! i))) @ [nl])
                [0..<next_idx s]) \<and>
    (pc s = Collecting \<and> next_idx s < length (files c) \<and> results s ! next_idx s \<noteq> None \<longrightarrow>
       (\<exists>s'. step c Emit s = Some s' \<and> next_idx s' = next_idx s + 1 \<and>
          cout s' =
            cout s @ filename (files c ! next_idx s) @ [tab] @
              (if ok (hashf c (files c ! next_idx s)) then md5hex (hashf c (files c ! next_idx s))
               else ''ERROR: '' @ err (hashf c (files c ! next_idx s))) @ [nl]))"
proof -
  from run_invariant [OF assms] have it: "inv_tasks c (history c sched (init c)) s"
    and io: "inv_out c (history c sched (init c)) s" and im: "inv_main c s" by simp_all
  from io have e: "emitted (history c sched (init c)) = [0..<next_idx s]"
    unfolding inv_out_def by simp
  from io have "cout s =
      concat (map (\<lambda>i. emit_line (files c ! i) (hashf c (files c ! i))) [0..<next_idx s])"
    unfolding inv_out_def by simp
  then have co: "cout s =
      concat (map (\<lambda>i. filename (files c ! i) @ [tab] @
                      (if ok (hashf c (files c ! i)) then md5hex (hashf c (files c ! i))
                       else ''ERROR: '' @ err (hashf c (files c ! i))) @ [nl])
                [0..<next_idx s])"
    by (simp only: emit_line_eq)
  have em: "\<exists>s'. step c Emit s = Some s' \<and> next_idx s' = next_idx s + 1 \<and>
          cout s' =
            cout s @ filename (files c ! next_idx s) @ [tab] @
              (if ok (hashf c (files c ! next_idx s)) then md5hex (hashf c (files c ! next_idx s))
               else ''ERROR: '' @ err (hashf c (files c ! next_idx s))) @ [nl]"
    if pc: "pc s = Collecting" and lt: "next_idx s < length (files c)"
      and fi: "results s ! next_idx s \<noteq> None"
  proof -
    from im pc have na: "\<not> aborted s" by (auto simp: inv_main_def)
    from it have lr: "length (results s) = length (files c)" unfolding inv_tasks_def by simp
    from it lt have "results s ! next_idx s =
        (if next_idx s \<in> set (written (history c sched (init c)))
         then Some (hashf c (files c ! next_idx s)) else None)"
      unfolding inv_tasks_def by blast
    with fi have r: "results s ! next_idx s = Some (hashf c (files c ! next_idx s))"
      by (simp split: if_splits)
    have "step c Emit s =
        Some (s\<lparr>cout := cout s @ emit_line (files c ! next_idx s) (hashf c (files c ! next_idx s)),
                next_idx := next_idx s + 1\<rparr>)"
      using na pc lt lr r by simp
    then show ?thesis by (simp add: emit_line_eq)
  qed
  from e co em show ?thesis by blast
qed

theorem collector_index_order_witness:
  "\<exists>s. run (config_of ex_md5 ex_fs 8 ex_files)
          (ex_start @ [Hash 2, Publish 2, Hash 0, Publish 0, Emit, Hash 1, Publish 1, Emit])
          (init (config_of ex_md5 ex_fs 8 ex_files)) = Some s \<and>
     emitted (history (config_of ex_md5 ex_fs 8 ex_files)
          (ex_start @ [Hash 2, Publish 2, Hash 0, Publish 0, Emit, Hash 1, Publish 1, Emit])
          (init (config_of ex_md5 ex_fs 8 ex_files))) = [0, 1] \<and>
     cout s = ''a.txt'' @ [tab] @ ''05162738495A6B7C8D9EAFC0D1E2F304'' @ [nl] @
              ''b.txt'' @ [tab] @ ''00112233445566778899AABBCCDDEEFF'' @ [nl] \<and>
     (\<exists>s'. step (config_of ex_md5 ex_fs 8 ex_files) Emit s = Some s' \<and> next_idx s' = 3 \<and>
        cout s' = cout s @ ''c.bin'' @ [tab] @ ''ERROR: cannot open file'' @ [nl])"
proof -
  define c where "c = config_of ex_md5 ex_fs 8 ex_files"
  define sched where
    "sched = ex_start @ [Hash 2, Publish 2, Hash 0, Publish 0, Emit, Hash 1, Publish 1, Emit]"
  have "\<exists>s. run c sched (init c) = Some s \<and> pc s = Collecting \<and> next_idx s = 2 \<and>
      results s ! 2 \<noteq> None \<and>
      cout s = ''a.txt'' @ [tab] @ ''05162738495A6B7C8D9EAFC0D1E2F304'' @ [nl] @
               ''b.txt'' @ [tab] @ ''00112233445566778899AABBCCDDEEFF'' @ [nl]"
    unfolding c_def sched_def
    by (simp add: ex_defs emit_line_def filename_def hash_task_def md5_file_hex_def
        digest_hex_def MD5_DIGEST_LENGTH_def put_byte_eq hex_digit_def uppercase_hex_def upt_rec)
  then obtain s where r: "run c sched (init c) = Some s" and s: "pc s = Collecting"
    "next_idx s = 2" "results s ! 2 \<noteq> None"
    and co: "cout s = ''a.txt'' @ [tab] @ ''05162738495A6B7C8D9EAFC0D1E2F304'' @ [nl] @
               ''b.txt'' @ [tab] @ ''00112233445566778899AABBCCDDEEFF'' @ [nl]" by blast
  have f: "length (files c) = 3" "files c ! 2 = ''d/c.bin''"
    "hashf c ''d/c.bin'' = \<lparr>ok = False, md5hex = [], err = ''cannot open file''\<rparr>"
    "filename ''d/c.bin'' = ''c.bin''"
    by (simp_all add: c_def ex_defs hash_task_def md5_file_hex_def filename_def)
  note th = collector_index_order [OF r]
  from th have "emitted (history c sched (init c)) = [0..<next_idx s]" by (rule conjunct1)
  then have e: "emitted (history c sched (init c)) = [0, 1]" by (simp add: s upt_rec)
  have "\<exists>s'. step c Emit s = Some s' \<and> next_idx s' = next_idx s + 1 \<and>
          cout s' =
            cout s @ filename (files c ! next_idx s) @ [tab] @
              (if ok (hashf c (files c ! next_idx s)) then md5hex (hashf c (files c ! next_idx s))
               else ''ERROR: '' @ err (hashf c (files c ! next_idx s))) @ [nl]"
    by (rule th [THEN conjunct2, THEN conjunct2, THEN mp]) (simp add: s f)
  then have em: "\<exists>s'. step c Emit s = Some s' \<and> next_idx s' = 3 \<and>
        cout s' = cout s @ ''c.bin'' @ [tab] @ ''ERROR: cannot open file'' @ [nl]"
    by (simp add: s f del: step.simps)
  from r e co em have "run c sched (init c) = Some s \<and>
     emitted (history c sched (init c)) = [0, 1] \<and>
     cout s = ''a.txt'' @ [tab] @ ''05162738495A6B7C8D9EAFC0D1E2F304'' @ [nl] @
              ''b.txt'' @ [tab] @ ''00112233445566778899AABBCCDDEEFF'' @ [nl] \<and>
     (\<exists>s'. step c Emit s = Some s' \<and> next_idx s' = 3 \<and>
        cout s' = cout s @ ''c.bin'' @ [tab] @ ''ERROR: cannot open file'' @ [nl])"
    by blast
  then show ?thesis unfolding c_def sched_def by blast
qed

text \<open>
  C5: along every run no task is taken from the queue twice, hashed twice or written
  twice, and only tasks taken are hashed and written; when the program has returned,
  every task enqueued has been taken, hashed and written exactly once, the queue is
  empty, and the number of results written is the number of tasks enqueued.
\<close>

theorem tasks_exactly_once:
  assumes "run c sched (init c) = Some s"
  shows "distinct (dequeued (history c sched (init c))) \<and>
    distinct (hashed (history c sched (init c))) \<and>
    distinct (written (history c sched (init c))) \<and>
    set (written (history c sched (init c))) \<subseteq> set (dequeued (history c sched (init c))) \<and>
    set (dequeued (history c sched (init c))) \<subseteq> index ` set (q (init c)) \<and>
    ((\<exists>code. pc s = Exited code) \<longrightarrow>
       mset (dequeued (history c sched (init c))) = mset (map index (q (init c))) \<and>
       mset (hashed (history c sched (init c))) = mset (map index (q (init c))) \<and>
       mset (written (history c sched (init c))) = mset (map index (q (init c))) \<and>
       length (written (history c sched (init c))) = length (q (init c)) \<and>
       q s = [])"
proof -
  define h where "h = history c sched (init c)"
  define n where "n = length (files c)"
  have qi: "map index (q (init c)) = [0..<n]"
    by (simp add: init_def make_queue_def n_def comp_def)
  then have qs: "index ` set (q (init c)) = {0..<n}"
    by (metis list.set_map set_upt)
  have ql: "length (q (init c)) = n" by (simp add: init_def length_make_queue n_def)
  from safety [OF assms] have d: "dequeued h = [0..<length (dequeued h)]"
    and kn: "length (dequeued h) \<le> n"
    and dw: "distinct (written h)" and sw: "set (written h) \<subseteq> {0..<length (dequeued h)}"
    unfolding h_def n_def by simp_all
  have dd: "distinct (dequeued h)" by (subst d) simp
  have sd: "set (dequeued h) = {0..<length (dequeued h)}" by (subst d) simp
  have a: "set (written h) \<subseteq> set (dequeued h)" using sw sd by simp
  have b: "set (dequeued h) \<subseteq> {0..<n}" using sd kn by auto
  have dh: "distinct (hashed h)" using distinct_hashed [OF assms] unfolding h_def .
  have fin: "mset (dequeued h) = mset [0..<n] \<and> mset (hashed h) = mset [0..<n] \<and>
      mset (written h) = mset [0..<n] \<and> length (written h) = n \<and> q s = []"
    if "pc s = Exited code" for code
  proof -
    from finished [OF assms that] have "dequeued h = [0..<n]" "mset (written h) = mset [0..<n]"
      "mset (hashed h) = mset [0..<n]" "q s = []"
      unfolding h_def n_def by simp_all
    moreover from this(2) have "length (written h) = n" by (metis length_upt mset_eq_length minus_nat.diff_0)
    ultimately show ?thesis by simp
  qed
  show ?thesis
    unfolding h_def [symmetric] qi qs ql using dd dh dw a b fin by blast
qed

theorem tasks_exactly_once_witness:
  "\<exists>s. run (config_of ex_md5 ex_fs 8 ex_files) (ex_start @ ex_work @ ex_stop)
          (init (config_of ex_md5 ex_fs 8 ex_files)) = Some s \<and> pc s = Exited 0 \<and>
     mset (written (history (config_of ex_md5 ex_fs 8 ex_files) (ex_start @ ex_work @ ex_stop)
          (init (config_of ex_md5 ex_fs 8 ex_files)))) = mset [0, 1, 2] \<and>
     q s = []"
proof -
  define c where "c = config_of ex_md5 ex_fs 8 ex_files"
  define sched where "sched = ex_start @ ex_work @ ex_stop"
  have "\<exists>s. run c sched (init c) = Some s \<and> pc s = Exited 0"
    unfolding c_def sched_def by (simp add: ex_defs)
  then obtain s where r: "run c sched (init c) = Some s" and s: "pc s = Exited 0" by blast
  have f: "map index (q (init c)) = [0, 1, 2]" by (simp add: c_def ex_defs)
  from tasks_exactly_once [OF r] s f
  have "mset (written (history c sched (init c))) = mset [0, 1, 2] \<and> q s = []" by simp
  then show ?thesis using r s unfolding c_def sched_def by blast
qed

lemma sort_cong_mset: "mset xs = mset ys \<Longrightarrow> sort xs = sort ys"
  by (rule properties_for_sort) simp_all

lemma pool_size:
  assumes "run c sched (init c) = Some s" and "pc s \<noteq> Starting"
  shows "length (pool s) = threads c"
  using run_invariant [OF assms(1)] assms(2) by (simp add: inv_main_def)

lemma finished_cout:
  assumes "run (config_of md5 fs n fl) sched (init (config_of md5 fs n fl)) = Some s"
    and "pc s = Exited code"
  shows "cout s = concat (map (\<lambda>p. emit_line p (hash_task md5 (fs_open fs p))) fl)"
  using finished(7) [OF assms] by (simp add: config_of_def)

lemma ex_sort1: "sort [''d/c.bin'', ''d/a.txt'', ''d/b.txt''] = ex_files"
  by (simp add: ex_files_def less_eq_char_def less_char_def)

lemma ex_sort2: "sort [''d/b.txt'', ''d/c.bin'', ''d/a.txt''] = ex_files"
  by (simp add: ex_files_def less_eq_char_def less_char_def)

section \<open>The command line and the exit code\<close>

lemma parse_args_no_option:
  "''--threads'' \<notin> set args \<Longrightarrow> parse_args args t inp = Inr (t, inp @ args)"
  by (induction args arbitrary: inp) auto


lemma parse_args_option:
  assumes "stoul v = Inr n" and "''--threads'' \<notin> set pre" and "''--threads'' \<notin> set post"
  shows "parse_args (pre @ ''--threads'' # v # post) t inp = Inr (max 8 n, inp @ pre @ post)"
  using assms(2)
proof (induction pre arbitrary: inp t)
  case Nil
  then show ?case using assms(1,3) by (simp add: parse_args_no_option)
next
  case (Cons a pre)
  then show ?case by auto
qed

lemma parse_args_error:
  "parse_args args t inp = Inl e \<Longrightarrow> e = Threads_requires_number \<or> e = Invalid_threads_value"
proof (induction args t inp rule: parse_args.induct)
  case (1 threads inputs)
  then show ?case by simp
next
  case (2 a rest threads inputs)
  show ?case
  proof (cases "a = ''--threads''")
    case False
    with 2 show ?thesis by simp
  next
    case True
    note a = this
    show ?thesis
    proof (cases rest)
      case Nil
      with a "2.prems" show ?thesis by simp
    next
      case (Cons v rest')
      show ?thesis
      proof (cases "stoul v")
        case (Inl x)
        with a Cons "2.prems" show ?thesis by simp
      next
        case (Inr m)
        with a Cons "2.prems" have "parse_args rest' (max 8 m) inputs = Inl e" by simp
        from "2.IH"(1) [OF a Cons Inr this] show ?thesis .
      qed
    qed
  qed
qed



lemma main_setup_cases:
  "snd (snd (main_setup fs args)) = Exit 1 \<or>
   (\<exists>n inputs. parse_args args 8 [] = Inr (n, inputs) \<and> args \<noteq> [] \<and> inputs \<noteq> [] \<and>
      fst (collect_all fs inputs) \<noteq> [] \<and>
      main_setup fs args =
        ([], snd (collect_all fs inputs), Proceed n (sort (fst (collect_all fs inputs)))))"
  by (auto simp: main_setup_def split: sum.splits prod.splits)

lemma main_setup_exit:
  "snd (snd (main_setup fs args)) = Exit k \<longleftrightarrow>
     k = 1 \<and>
     (args = [] \<or> (\<exists>e. parse_args args 8 [] = Inl e) \<or>
      (\<exists>n inputs. parse_args args 8 [] = Inr (n, inputs) \<and>
         (inputs = [] \<or> fst (collect_all fs inputs) = [])))"
  by (auto simp: main_setup_def split: sum.splits prod.splits)


lemma main_exit:
  "main_setup fs args = (out, cerr, Exit k) \<Longrightarrow>
   main md5 fs args sched = Some (Finished k out cerr)"
  by (simp add: main_def)

lemma main_proceed:
  assumes "main_setup fs args = (out, cerr, Proceed n fl)"
  shows "main md5 fs args sched = Some (Finished code out' cerr') \<longleftrightarrow>
    (\<exists>s. run (config_of md5 fs n fl) sched (init (config_of md5 fs n fl)) = Some s \<and>
       \<not> aborted s \<and> pc s = Exited code \<and> out' = out @ cout s \<and> cerr' = cerr)"
  using assms by (auto simp: main_def split: option.splits main_pc.splits if_splits)

lemma main_terminated:
  assumes "main_setup fs args = (out, cerr, Proceed n fl)"
  shows "main md5 fs args sched = Some Terminated \<longleftrightarrow>
    (\<exists>s. run (config_of md5 fs n fl) sched (init (config_of md5 fs n fl)) = Some s \<and> aborted s)"
  using assms by (auto simp: main_def split: option.splits main_pc.splits if_splits)

subsection \<open>The example, evaluated\<close>

lemmas ex_setup_defs = main_setup_def collect_all_def collect_files_from_arg_def
  less_eq_char_def less_char_def

lemma ex_setup: "main_setup ex_fs [''d''] = ([], [], Proceed 8 ex_files)"
  by (simp add: ex_setup_defs ex_fs_def ex_files_def)




section \<open>The claims about the whole program\<close>

lemma main_setup_proceeds:
  assumes "parse_args args 8 [] = Inr (n, inputs)" and "fst (collect_all fs inputs) \<noteq> []"
  shows "main_setup fs args =
    ([], snd (collect_all fs inputs), Proceed n (sort (fst (collect_all fs inputs))))"
proof -
  from assms(2) have i: "inputs \<noteq> []" by (auto simp: collect_all_def)
  with assms(1) have a: "args \<noteq> []" by auto
  obtain fl w where c: "collect_all fs inputs = (fl, w)" by (cases "collect_all fs inputs")
  with assms(2) have "fl \<noteq> []" by simp
  with a i assms(1) c show ?thesis
    by (simp add: main_setup_def)
qed

text \<open>
  C2: take two command lines and two states of the file system with the same file
  contents, on which the discovery finds the same files, in whatever order and with
  whatever worker counts.  Any two runs of the program that return have written the
  same text to the standard output, whatever their schedules: one line per discovered
  file, in the order of the sorted paths.
\<close>

theorem output_deterministic:
  assumes "parse_args args1 8 [] = Inr (n1, inputs1)"
    and "parse_args args2 8 [] = Inr (n2, inputs2)"
    and "mset (fst (collect_all fs1 inputs1)) = mset (fst (collect_all fs2 inputs2))"
    and "fst (collect_all fs1 inputs1) \<noteq> []"
    and "fs_open fs1 = fs_open fs2"
    and "main md5 fs1 args1 sched1 = Some (Finished code1 out1 cerr1)"
    and "main md5 fs2 args2 sched2 = Some (Finished code2 out2 cerr2)"
  shows "out1 = out2 \<and>
    out1 =
      concat (map (\<lambda>p. filename p @ [tab] @
                      (if ok (hash_task md5 (fs_open fs1 p))
                       then md5hex (hash_task md5 (fs_open fs1 p))
                       else ''ERROR: '' @ err (hash_task md5 (fs_open fs1 p))) @ [nl])
                (sort (fst (collect_all fs1 inputs1))))"
proof -
  define fl where "fl = sort (fst (collect_all fs1 inputs1))"
  from assms(3) have fl2: "sort (fst (collect_all fs2 inputs2)) = fl"
    unfolding fl_def by (metis sort_cong_mset)
  from assms(3,4) have ne2: "fst (collect_all fs2 inputs2) \<noteq> []" by auto
  have s1: "main_setup fs1 args1 = ([], snd (collect_all fs1 inputs1), Proceed n1 fl)"
    unfolding fl_def by (rule main_setup_proceeds [OF assms(1,4)])
  have s2: "main_setup fs2 args2 = ([], snd (collect_all fs2 inputs2), Proceed n2 fl)"
    unfolding fl2 [symmetric] by (rule main_setup_proceeds [OF assms(2) ne2])
  from assms(6) main_proceed [OF s1, of md5 sched1 code1 out1 cerr1] obtain t1
    where r1: "run (config_of md5 fs1 n1 fl) sched1 (init (config_of md5 fs1 n1 fl)) = Some t1"
      and e1: "pc t1 = Exited code1" and o1: "out1 = cout t1" by auto
  from assms(7) main_proceed [OF s2, of md5 sched2 code2 out2 cerr2] obtain t2
    where r2: "run (config_of md5 fs2 n2 fl) sched2 (init (config_of md5 fs2 n2 fl)) = Some t2"
      and e2: "pc t2 = Exited code2" and o2: "out2 = cout t2" by auto
  from finished_cout [OF r1 e1] o1
  have a: "out1 = concat (map (\<lambda>p. emit_line p (hash_task md5 (fs_open fs1 p))) fl)" by simp
  from finished_cout [OF r2 e2] o2
  have b: "out2 = concat (map (\<lambda>p. emit_line p (hash_task md5 (fs_open fs1 p))) fl)"
    by (simp add: assms(5))
  from a have "out1 =
      concat (map (\<lambda>p. filename p @ [tab] @
                      (if ok (hash_task md5 (fs_open fs1 p))
                       then md5hex (hash_task md5 (fs_open fs1 p))
                       else ''ERROR: '' @ err (hash_task md5 (fs_open fs1 p))) @ [nl]) fl)"
    by (simp only: emit_line_eq)
  with a b show ?thesis unfolding fl_def by simp
qed

lemmas ex_text_defs = emit_line_def filename_def hash_task_def md5_file_hex_def
  digest_hex_def MD5_DIGEST_LENGTH_def put_byte_eq hex_digit_def uppercase_hex_def upt_rec

lemma ex_stoul_9: "stoul ''9'' = Inr 9"
  by (simp add: stoul_def strip_sign_def isspace_def isdigit_def)

lemma ex_main_d:
  "main ex_md5 ex_fs [''d''] (ex_start @ ex_work @ ex_stop) =
     Some (Finished 0
       (''a.txt'' @ [tab] @ ''05162738495A6B7C8D9EAFC0D1E2F304'' @ [nl] @
        ''b.txt'' @ [tab] @ ''00112233445566778899AABBCCDDEEFF'' @ [nl] @
        ''c.bin'' @ [tab] @ ''ERROR: cannot open file'' @ [nl]) [])"
  unfolding main_def ex_setup by (simp add: ex_defs ex_text_defs)

lemma ex_setup_9:
  "main_setup ex_fs [''d/b.txt'', ''--threads'', ''9'', ''d/c.bin'', ''d/a.txt''] =
     ([], [], Proceed 9 ex_files)"
  by (simp add: ex_setup_defs ex_fs_def ex_files_def ex_stoul_9)

lemma ex_main_9:
  "\<exists>out. main ex_md5 ex_fs [''d/b.txt'', ''--threads'', ''9'', ''d/c.bin'', ''d/a.txt'']
       [Spawn, Spawn, Spawn, Spawn, Spawn, Spawn, Spawn, Spawn, Spawn, Begin,
        Take 8, Take 3, Hash 3, Take 0, Hash 8, Publish 8, Emit, Hash 0, Publish 3, Emit,
        Publish 0, Emit, Shutdown, Leave 8, Leave 7, Leave 6, Leave 5, Leave 4, Leave 3,
        Leave 2, Leave 1, Leave 0, Join, Join, Join, Join, Join, Join, Join, Join, Join,
        Return] = Some (Finished 0 out [])"
  unfolding main_def ex_setup_9 by (simp add: ex_defs)

theorem output_deterministic_witness:
  "main ex_md5 ex_fs [''d''] (ex_start @ ex_work @ ex_stop) =
     Some (Finished 0
       (''a.txt'' @ [tab] @ ''05162738495A6B7C8D9EAFC0D1E2F304'' @ [nl] @
        ''b.txt'' @ [tab] @ ''00112233445566778899AABBCCDDEEFF'' @ [nl] @
        ''c.bin'' @ [tab] @ ''ERROR: cannot open file'' @ [nl]) []) \<and>
   main ex_md5 ex_fs [''d/b.txt'', ''--threads'', ''9'', ''d/c.bin'', ''d/a.txt'']
       [Spawn, Spawn, Spawn, Spawn, Spawn, Spawn, Spawn, Spawn, Spawn, Begin,
        Take 8, Take 3, Hash 3, Take 0, Hash 8, Publish 8, Emit, Hash 0, Publish 3, Emit,
        Publish 0, Emit, Shutdown, Leave 8, Leave 7, Leave 6, Leave 5, Leave 4, Leave 3,
        Leave 2, Leave 1, Leave 0, Join, Join, Join, Join, Join, Join, Join, Join, Join,
        Return] =
     Some (Finished 0
       (''a.txt'' @ [tab] @ ''05162738495A6B7C8D9EAFC0D1E2F304'' @ [nl] @
        ''b.txt'' @ [tab] @ ''00112233445566778899AABBCCDDEEFF'' @ [nl] @
        ''c.bin'' @ [tab] @ ''ERROR: cannot open file'' @ [nl]) [])"
proof -
  from ex_main_9 obtain out2
    where m2: "main ex_md5 ex_fs [''d/b.txt'', ''--threads'', ''9'', ''d/c.bin'', ''d/a.txt'']
       [Spawn, Spawn, Spawn, Spawn, Spawn, Spawn, Spawn, Spawn, Spawn, Begin,
        Take 8, Take 3, Hash 3, Take 0, Hash 8, Publish 8, Emit, Hash 0, Publish 3, Emit,
        Publish 0, Emit, Shutdown, Leave 8, Leave 7, Leave 6, Leave 5, Leave 4, Leave 3,
        Leave 2, Leave 1, Leave 0, Join, Join, Join, Join, Join, Join, Join, Join, Join,
        Return] = Some (Finished 0 out2 [])" by blast
  have p1: "parse_args [''d''] 8 [] = Inr (8, [''d''])" by simp
  have p2: "parse_args [''d/b.txt'', ''--threads'', ''9'', ''d/c.bin'', ''d/a.txt''] 8 [] =
      Inr (9, [''d/b.txt'', ''d/c.bin'', ''d/a.txt''])"
    by (simp add: ex_stoul_9)
  have c1: "fst (collect_all ex_fs [''d'']) = [''d/c.bin'', ''d/a.txt'', ''d/b.txt'']"
    by (simp add: collect_all_def collect_files_from_arg_def ex_fs_def)
  have c2: "fst (collect_all ex_fs [''d/b.txt'', ''d/c.bin'', ''d/a.txt'']) =
      [''d/b.txt'', ''d/c.bin'', ''d/a.txt'']"
    by (simp add: collect_all_def collect_files_from_arg_def ex_fs_def)
  have m: "mset (fst (collect_all ex_fs [''d''])) =
      mset (fst (collect_all ex_fs [''d/b.txt'', ''d/c.bin'', ''d/a.txt'']))"
    unfolding c1 c2 by simp
  have ne: "fst (collect_all ex_fs [''d'']) \<noteq> []" unfolding c1 by simp
  from output_deterministic [OF p1 p2 m ne refl ex_main_d m2] have "out2 =
       ''a.txt'' @ [tab] @ ''05162738495A6B7C8D9EAFC0D1E2F304'' @ [nl] @
       ''b.txt'' @ [tab] @ ''00112233445566778899AABBCCDDEEFF'' @ [nl] @
       ''c.bin'' @ [tab] @ ''ERROR: cannot open file'' @ [nl]"
    by simp
  with ex_main_d m2 show ?thesis by simp
qed

text \<open>
  C10: without the worker-count option on the command line the worker count is 8, and
  once the main thread has left the loop that starts the pool, the pool has exactly 8
  workers.
\<close>

theorem default_worker_count:
  assumes "''--threads'' \<notin> set args"
    and "main_setup fs args = (out, cerr, Proceed n fl)"
    and "run (config_of md5 fs n fl) sched (init (config_of md5 fs n fl)) = Some s"
    and "pc s \<noteq> Starting"
  shows "n = 8 \<and> length (pool s) = 8"
proof -
  from assms(1) have "parse_args args 8 [] = Inr (8, args)"
    by (simp add: parse_args_no_option)
  with assms(2) have n: "n = 8"
    by (auto simp: main_setup_def split: if_splits prod.splits)
  from pool_size [OF assms(3,4)] have "length (pool s) = unat n" by (simp add: config_of_def)
  with n show ?thesis by simp
qed

theorem default_worker_count_witness:
  "''--threads'' \<notin> set [''d''] \<and>
   (\<exists>s. run (config_of ex_md5 ex_fs 8 ex_files) ex_start (init (config_of ex_md5 ex_fs 8 ex_files))
      = Some s \<and> pc s \<noteq> Starting \<and> length (pool s) = 8)"
proof -
  have a: "''--threads'' \<notin> set [''d'']" by simp
  have "\<exists>s. run (config_of ex_md5 ex_fs 8 ex_files) ex_start
      (init (config_of ex_md5 ex_fs 8 ex_files)) = Some s \<and> pc s \<noteq> Starting"
    by (simp add: ex_defs)
  then obtain s where r: "run (config_of ex_md5 ex_fs 8 ex_files) ex_start
      (init (config_of ex_md5 ex_fs 8 ex_files)) = Some s" and p: "pc s \<noteq> Starting" by blast
  from default_worker_count [OF a ex_setup r p] have "length (pool s) = 8" by simp
  with a r p show ?thesis by blast
qed

subsection \<open>The worker-count option\<close>










subsection \<open>The exit code\<close>

text \<open>When \<^verbatim>\<open>main\<close> returns, its exit code is 1 exactly on the early returns, and 0
  exactly when it got past them to the pool.\<close>

lemma exit_code_cases:
  assumes m: "main md5 fs args sched = Some (Finished code out cerr)"
  shows "(code = 0 \<or> code = 1) \<and>
    (code = 1 \<longleftrightarrow>
       args = [] \<or> (\<exists>e. parse_args args 8 [] = Inl e) \<or>
       (\<exists>n inputs. parse_args args 8 [] = Inr (n, inputs) \<and>
          (inputs = [] \<or> fst (collect_all fs inputs) = []))) \<and>
    (code = 0 \<longleftrightarrow> (\<exists>n fl. snd (snd (main_setup fs args)) = Proceed n fl))"
proof -
  let ?D = "args = [] \<or> (\<exists>e. parse_args args 8 [] = Inl e) \<or>
       (\<exists>n inputs. parse_args args 8 [] = Inr (n, inputs) \<and>
          (inputs = [] \<or> fst (collect_all fs inputs) = []))"
  obtain out0 cerr0 r0 where ms: "main_setup fs args = (out0, cerr0, r0)"
    by (cases "main_setup fs args") auto
  show ?thesis
  proof (cases r0)
    case (Exit k)
    with ms main_exit [of fs args out0 cerr0 k md5 sched] m have ck: "code = k" by simp
    from Exit ms have e: "snd (snd (main_setup fs args)) = Exit k" by simp
    with main_setup_exit [of fs args k] have k: "k = 1" and d: ?D by blast+
    from e have "\<not> (\<exists>n fl. snd (snd (main_setup fs args)) = Proceed n fl)" by simp
    with d show ?thesis unfolding ck k by simp
  next
    case (Proceed n fl)
    with ms have p: "main_setup fs args = (out0, cerr0, Proceed n fl)" by simp
    from m main_proceed [OF p, of md5 sched code out cerr] obtain s
      where r: "run (config_of md5 fs n fl) sched (init (config_of md5 fs n fl)) = Some s"
        and e: "pc s = Exited code" by blast
    from finished(1) [OF r e] have c0: "code = 0" .
    from p have pr: "snd (snd (main_setup fs args)) = Proceed n fl" by simp
    then have "snd (snd (main_setup fs args)) \<noteq> Exit 1" by simp
    with main_setup_exit [of fs args 1] have "\<not> ?D" by simp
    moreover from pr have "\<exists>n fl. snd (snd (main_setup fs args)) = Proceed n fl" by blast
    ultimately show ?thesis unfolding c0 by simp
  qed
qed

text \<open>
  C6 fails on the code, by the defect of C8: the worker-count option with the value
  \<open>12abc\<close> is a bad option, and the program does not end with exit code 1 but starts
  12 workers, hashes the files and returns 0.  A value without a leading number does
  end the program with exit code 1 before anything is hashed.
\<close>

theorem bad_option_exit_code:
  "main ex_md5 ex_fs [''d'', ''--threads'', ''12abc'']
     [Spawn, Spawn, Spawn, Spawn, Spawn, Spawn, Spawn, Spawn, Spawn, Spawn, Spawn, Spawn,
      Begin, Take 11, Take 4, Take 0, Hash 4, Hash 0, Publish 0, Hash 11, Publish 11,
      Publish 4, Emit, Emit, Emit, Shutdown,
      Leave 0, Leave 1, Leave 2, Leave 3, Leave 4, Leave 5, Leave 6, Leave 7, Leave 8,
      Leave 9, Leave 10, Leave 11,
      Join, Join, Join, Join, Join, Join, Join, Join, Join, Join, Join, Join, Return] =
     Some (Finished 0
       (''a.txt'' @ [tab] @ ''05162738495A6B7C8D9EAFC0D1E2F304'' @ [nl] @
        ''b.txt'' @ [tab] @ ''00112233445566778899AABBCCDDEEFF'' @ [nl] @
        ''c.bin'' @ [tab] @ ''ERROR: cannot open file'' @ [nl]) []) \<and>
   main ex_md5 ex_fs [''d'', ''--threads'', ''abc''] [] =
     Some (Finished 1 [] (''Error: invalid --threads value'' @ [nl]))"
proof -
  have a: "stoul ''12abc'' = Inr 12" and b: "stoul ''abc'' = Inl Invalid_argument"
    by (simp_all add: stoul_def strip_sign_def isspace_def isdigit_def)
  have s1: "main_setup ex_fs [''d'', ''--threads'', ''12abc''] = ([], [], Proceed 12 ex_files)"
    by (simp add: a ex_setup_defs ex_fs_def ex_files_def)
  have s2: "main_setup ex_fs [''d'', ''--threads'', ''abc''] =
      ([], ''Error: invalid --threads value'' @ [nl], Exit 1)"
    by (simp add: b ex_setup_defs ex_fs_def ex_files_def message_def)
  show ?thesis
    unfolding main_def s1 s2 by (simp add: ex_defs ex_text_defs)
qed

section \<open>Discovery, read errors and option values\<close>









text \<open>
  C3 fails on the code.  The open failure is reported, but a read error while the file
  is streamed is not: \<^verbatim>\<open>while (in)\<close> ends on \<^verbatim>\<open>badbit\<close> as it ends at the end of the file,
  and the digest of the bytes read so far is returned as a success, the same result as
  for a complete file with these bytes.
\<close>

theorem read_error_reported_as_success:
  "hash_task md5 (Opened [(b1, Good), (b2, Bad)]) = hash_task md5 (Opened [(b1 @ b2, Eof)]) \<and>
   hash_task md5 (Opened [(b1, Good), (b2, Bad)]) =
     \<lparr>ok = True, md5hex = digest_hex (md5 (b1 @ b2)), err = []\<rparr> \<and>
   hash_task md5 Cannot_open = \<lparr>ok = False, md5hex = [], err = ''cannot open file''\<rparr>"
  by (simp add: hash_task_def md5_file_hex_def)

text \<open>
  C8 fails on the code.  \<^verbatim>\<open>std::stoul\<close> converts the digits a string starts with and
  ignores the rest, so the value \<open>12abc\<close> is accepted as 12 and the program goes on to
  hash; only a value without a leading number (or one out of range) ends the run.
\<close>

theorem trailing_garbage_accepted:
  "stoul ''12abc'' = Inr 12 \<and>
   parse_args [''d'', ''--threads'', ''12abc''] 8 [] = Inr (12, [''d'']) \<and>
   main_setup ex_fs [''d'', ''--threads'', ''12abc''] = ([], [], Proceed 12 ex_files) \<and>
   stoul ''abc'' = Inl Invalid_argument \<and>
   main_setup ex_fs [''d'', ''--threads'', ''abc''] =
     ([], ''Error: invalid --threads value'' @ [nl], Exit 1)"
proof -
  have a: "stoul ''12abc'' = Inr 12" and b: "stoul ''abc'' = Inl Invalid_argument"
    by (simp_all add: stoul_def strip_sign_def isspace_def isdigit_def)
  show ?thesis
    by (simp add: a b ex_setup_defs ex_fs_def ex_files_def message_def)
qed

end
